theory Spec2Isabelle
  imports Complex_Main "HOL-Library.Multiset"
begin

section \<open>The quadtree of QuadTree.js\<close>

text \<open>
  JavaScript numbers are modelled as follows: coordinates are \<^typ>\<open>real\<close> (the
  idealisation of a double), the integer parameters \<open>max_objects\<close>, \<open>max_levels\<close>
  and \<open>level\<close> are \<^typ>\<open>int\<close>. An optional constructor argument is an
  \<^typ>\<open>int option\<close>, \<open>None\<close> being \<open>undefined\<close>.
\<close>

subsection \<open>Data\<close>

text \<open>A query rectangle \<open>{left, right, bottom, top}\<close>.\<close>

record rect =
  left :: real
  right :: real
  bottom :: real
  top' :: real

text \<open>
  The bounds of a node: the rectangle handed to the constructor, to which the
  constructor adds the fields \<open>width\<close> and \<open>height\<close>.
\<close>

record bounds = rect +
  width :: real
  height :: real

text \<open>A point has \<open>lon\<close> and \<open>lat\<close>; any further payload is the record's extension.\<close>

record point =
  lon :: real
  lat :: real

text \<open>
  A node. \<open>nodes\<close> is the array of subnodes: empty for a leaf, four entries
  after \<open>split\<close>.
\<close>

datatype 'a Quadtree = Quadtree
  (max_objects: int)
  (max_levels: int)
  (level: int)
  (bounds: bounds)
  (objects: "'a point_scheme list")
  (nodes: "'a Quadtree list")

text \<open>
  Failures. \<open>TypeError\<close> is what JavaScript throws when a method is called on
  \<open>this.nodes[i]\<close> and that entry is \<open>undefined\<close>. \<open>OutOfFuel\<close> is not an error of
  the program: \<open>insert\<close> is modelled with a bound on the depth of its recursion,
  and \<open>OutOfFuel\<close> says that the bound was too small.
\<close>

datatype error = TypeError | OutOfFuel

subsection \<open>Constructor\<close>

text \<open>\<open>x || d\<close> on an optional integer: \<open>undefined\<close> and \<open>0\<close> are falsy.\<close>

definition js_or :: "int option \<Rightarrow> int \<Rightarrow> int" where
  "js_or x d = (case x of None \<Rightarrow> d | Some v \<Rightarrow> if v = 0 then d else v)"

definition Quadtree_new ::
  "rect \<Rightarrow> int option \<Rightarrow> int option \<Rightarrow> int option \<Rightarrow> 'a Quadtree" where
  "Quadtree_new b max_objs max_lvls lvl =
     Quadtree (js_or max_objs 10) (js_or max_lvls 4) (js_or lvl 0)
       \<lparr>left = left b, right = right b, bottom = bottom b, top' = top' b,
        width = right b - left b, height = top' b - bottom b\<rparr>
       [] []"

definition ALL_NODES :: "nat list" where
  "ALL_NODES = [0, 1, 2, 3]"

subsection \<open>split\<close>

definition horMidpoint :: "'a Quadtree \<Rightarrow> real" where
  "horMidpoint t = left (bounds t) + width (bounds t) / 2"

definition verMidpoint :: "'a Quadtree \<Rightarrow> real" where
  "verMidpoint t = bottom (bounds t) + height (bounds t) / 2"

text \<open>
  \<open>split\<close> assigns \<open>this.nodes[0]\<close> to \<open>this.nodes[3]\<close>. On a JavaScript array an
  assignment at an index keeps the entries beyond it, so entries of index four
  and more (there are none in a tree built by the program) survive.
\<close>

definition split :: "'a Quadtree \<Rightarrow> 'a Quadtree" where
  "split t =
    (let nextLevel = level t + 1;
         hm = horMidpoint t;
         vm = verMidpoint t;
         b = bounds t;
         n0 = Quadtree_new \<lparr>left = hm, right = right b, bottom = bottom b, top' = vm\<rparr>
                (Some (max_objects t)) (Some (max_levels t)) (Some nextLevel);
         n1 = Quadtree_new \<lparr>left = left b, right = hm, bottom = bottom b, top' = vm\<rparr>
                (Some (max_objects t)) (Some (max_levels t)) (Some nextLevel);
         n2 = Quadtree_new \<lparr>left = left b, right = hm, bottom = vm, top' = top' b\<rparr>
                (Some (max_objects t)) (Some (max_levels t)) (Some nextLevel);
         n3 = Quadtree_new \<lparr>left = hm, right = right b, bottom = vm, top' = top' b\<rparr>
                (Some (max_objects t)) (Some (max_levels t)) (Some nextLevel)
     in Quadtree (max_objects t) (max_levels t) (level t) (bounds t) (objects t)
          ([n0, n1, n2, n3] @ drop 4 (nodes t)))"

subsection \<open>Indices\<close>

definition hasIntersection :: "'a Quadtree \<Rightarrow> rect \<Rightarrow> bool" where
  "hasIntersection t pRect \<longleftrightarrow>
     \<not> (right pRect < left (bounds t)
        \<or> right (bounds t) < left pRect
        \<or> top' pRect < bottom (bounds t)
        \<or> top' (bounds t) < bottom pRect)"

definition getIndexForPoint :: "'a Quadtree \<Rightarrow> 'b point_scheme \<Rightarrow> int" where
  "getIndexForPoint t p =
    (let horizontalMidpoint = left (bounds t) + (width (bounds t) / 2);
         verticalMidpoint = bottom (bounds t) + (height (bounds t) / 2)
     in if lon p > horizontalMidpoint
        then (if lat p > verticalMidpoint then 3 else 0)
        else (if lat p > verticalMidpoint then 2 else 1))"

text \<open>\<open>this.nodes[i]\<close>: \<open>None\<close> is \<open>undefined\<close>.\<close>

definition node_at :: "'a Quadtree \<Rightarrow> nat \<Rightarrow> 'a Quadtree option" where
  "node_at t i = (if i < length (nodes t) then Some (nodes t ! i) else None)"


text \<open>
  \<open>getIndexForRect\<close>: when the bounds lie within \<open>pRect\<close> the answer is
  \<open>ALL_NODES\<close> and no subnode is read; otherwise the loop calls
  \<open>hasIntersection\<close> on \<open>this.nodes[i]\<close> for \<open>i = 0, ..., 3\<close>, which throws at an
  entry that is \<open>undefined\<close>.
\<close>

fun getIndexForRect_loop ::
  "'a Quadtree \<Rightarrow> rect \<Rightarrow> nat list \<Rightarrow> nat list \<Rightarrow> error + nat list" where
  "getIndexForRect_loop t pRect [] indexes = Inr indexes"
| "getIndexForRect_loop t pRect (i # rest) indexes =
     (case node_at t i of
        None \<Rightarrow> Inl TypeError
      | Some c \<Rightarrow>
          getIndexForRect_loop t pRect rest
            (if hasIntersection c pRect then indexes @ [i] else indexes))"

definition getIndexForRect :: "'a Quadtree \<Rightarrow> rect \<Rightarrow> error + nat list" where
  "getIndexForRect t pRect =
     (if left (bounds t) \<ge> left pRect
         \<and> right (bounds t) \<le> right pRect
         \<and> bottom (bounds t) \<ge> bottom pRect
         \<and> top' (bounds t) \<le> top' pRect
      then Inr ALL_NODES
      else getIndexForRect_loop t pRect [0, 1, 2, 3] [])"

subsection \<open>retrieve\<close>

function retrieve :: "'a Quadtree \<Rightarrow> rect \<Rightarrow> error + 'a point_scheme list"
  and retrieve_loop ::
    "'a Quadtree \<Rightarrow> rect \<Rightarrow> nat list \<Rightarrow> 'a point_scheme list \<Rightarrow> error + 'a point_scheme list"
where
  "retrieve t pRect =
     (if nodes t \<noteq> []
      then (case getIndexForRect t pRect of
              Inl e \<Rightarrow> Inl e
            | Inr indexes \<Rightarrow> retrieve_loop t pRect indexes (objects t))
      else Inr (objects t))"
| "retrieve_loop t pRect [] returnObjects = Inr returnObjects"
| "retrieve_loop t pRect (i # rest) returnObjects =
     (case node_at t i of
        None \<Rightarrow> Inl TypeError
      | Some c \<Rightarrow>
          (case retrieve c pRect of
             Inl e \<Rightarrow> Inl e
           | Inr found \<Rightarrow> retrieve_loop t pRect rest (returnObjects @ found)))"
  by pat_completeness auto
termination
proof -
  have sz: "size c < size t" if "node_at t i = Some c" for t :: "'a Quadtree" and i c
  proof -
    from that have "c \<in> set (nodes t)"
      by (auto simp: node_at_def split: if_splits)
    then have "size c < Suc (size_list size (nodes t))"
      by (induction "nodes t" arbitrary: t)
         (simp, metis less_Suc_eq_le size_list_estimation' order_refl)
    then show ?thesis by (cases t) simp
  qed
  show ?thesis
    by (relation "measures
         [\<lambda>x. case x of Inl (t, _) \<Rightarrow> size t | Inr (t, _, _, _) \<Rightarrow> size t,
          \<lambda>x. case x of Inl _ \<Rightarrow> Suc 0 | Inr _ \<Rightarrow> 0,
          \<lambda>x. case x of Inl _ \<Rightarrow> 0 | Inr (_, _, is, _) \<Rightarrow> length is]")
       (auto dest: sz)
qed

subsection \<open>clear\<close>

text \<open>
  \<open>clear\<close> empties \<open>objects\<close>, clears every subnode, and then drops the subnodes.
\<close>

fun clear :: "'a Quadtree \<Rightarrow> 'a Quadtree" where
  "clear (Quadtree mo ml l b os ns) =
     (let cleared = map clear ns in Quadtree mo ml l b [] [])"

subsection \<open>insert\<close>

text \<open>
  \<open>this.objects.splice(i, 1)\<close> removes the entry of index \<open>i\<close>.
\<close>

definition splice1 :: "nat \<Rightarrow> 'b list \<Rightarrow> 'b list" where
  "splice1 i xs = take i xs @ drop (Suc i) xs"

text \<open>\<open>this.nodes[i] = c\<close> on an entry that exists.\<close>

definition set_node :: "'a Quadtree \<Rightarrow> nat \<Rightarrow> 'a Quadtree \<Rightarrow> 'a Quadtree" where
  "set_node t i c =
     Quadtree (max_objects t) (max_levels t) (level t) (bounds t) (objects t) ((nodes t)[i := c])"

definition set_objects :: "'a Quadtree \<Rightarrow> 'a point_scheme list \<Rightarrow> 'a Quadtree" where
  "set_objects t os =
     Quadtree (max_objects t) (max_levels t) (level t) (bounds t) os (nodes t)"

text \<open>
  \<open>insert\<close> and its redistribution loop. The first argument bounds the depth of
  the recursion: a call of \<open>insert\<close> on a subnode needs one unit, and with none
  left the result is \<open>OutOfFuel\<close>. The loop variable \<open>i\<close> is an argument of
  \<open>redistribute\<close>.
\<close>

function insert_qt :: "nat \<Rightarrow> 'a Quadtree \<Rightarrow> 'a point_scheme \<Rightarrow> error + 'a Quadtree"
  and redistribute :: "nat \<Rightarrow> 'a Quadtree \<Rightarrow> nat \<Rightarrow> error + 'a Quadtree"
where
  "insert_qt fuel t p =
     (let hasSubNodes = (nodes t \<noteq> []);
          index = getIndexForPoint t p
      in if hasSubNodes \<and> index \<noteq> - 1
         then (case fuel of
                 0 \<Rightarrow> Inl OutOfFuel
               | Suc f \<Rightarrow>
                   (case node_at t (nat index) of
                      None \<Rightarrow> Inl TypeError
                    | Some c \<Rightarrow>
                        (case insert_qt f c p of
                           Inl e \<Rightarrow> Inl e
                         | Inr c' \<Rightarrow> Inr (set_node t (nat index) c'))))
         else (let t1 = set_objects t (objects t @ [p])
               in if int (length (objects t1)) > max_objects t1
                     \<and> level t1 < max_levels t1 \<and> \<not> hasSubNodes
                  then redistribute fuel (if nodes t1 = [] then split t1 else t1) 0
                  else Inr t1))"
| "redistribute fuel t i =
     (if i < length (objects t)
      then (let index = getIndexForPoint t (objects t ! i)
            in if index \<noteq> - 1
               then (case fuel of
                       0 \<Rightarrow> Inl OutOfFuel
                     | Suc f \<Rightarrow>
                         (case node_at t (nat index) of
                            None \<Rightarrow> Inl TypeError
                          | Some c \<Rightarrow>
                              (case insert_qt f c (objects t ! i) of
                                 Inl e \<Rightarrow> Inl e
                               | Inr c' \<Rightarrow>
                                   redistribute fuel
                                     (set_node (set_objects t (splice1 i (objects t)))
                                        (nat index) c') i)))
               else redistribute fuel t (i + 1))
      else Inr t)"
  by pat_completeness auto
termination
  by (relation "measures
         [\<lambda>x. case x of Inl (fuel, _, _) \<Rightarrow> fuel | Inr (fuel, _, _) \<Rightarrow> fuel,
          \<lambda>x. case x of Inl _ \<Rightarrow> Suc 0 | Inr _ \<Rightarrow> 0,
          \<lambda>x. case x of Inl _ \<Rightarrow> 0 | Inr (_, t, i) \<Rightarrow> length (objects t) - i]")
     (auto simp: set_node_def set_objects_def splice1_def)

text \<open>Inserting a sequence of points, one call of \<open>insert\<close> after the other.\<close>

fun inserts :: "nat \<Rightarrow> 'a Quadtree \<Rightarrow> 'a point_scheme list \<Rightarrow> error + 'a Quadtree" where
  "inserts fuel t [] = Inr t"
| "inserts fuel t (p # ps) =
     (case insert_qt fuel t p of Inl e \<Rightarrow> Inl e | Inr t' \<Rightarrow> inserts fuel t' ps)"


section \<open>Notions used in the statements\<close>

text \<open>A point lies inside a rectangle, borders included.\<close>

definition in_rect :: "'b point_scheme \<Rightarrow> 'c rect_scheme \<Rightarrow> bool" where
  "in_rect p r \<longleftrightarrow>
     left r \<le> lon p \<and> lon p \<le> right r \<and> bottom r \<le> lat p \<and> lat p \<le> top' r"

text \<open>A point lies in the interior of a rectangle.\<close>

definition in_interior :: "'b point_scheme \<Rightarrow> 'c rect_scheme \<Rightarrow> bool" where
  "in_interior p r \<longleftrightarrow>
     left r < lon p \<and> lon p < right r \<and> bottom r < lat p \<and> lat p < top' r"

text \<open>The rectangle \<open>r\<close> contains the rectangle \<open>b\<close>.\<close>

definition contains_rect :: "'c rect_scheme \<Rightarrow> 'd rect_scheme \<Rightarrow> bool" where
  "contains_rect r b \<longleftrightarrow>
     left r \<le> left b \<and> right r \<ge> right b \<and> bottom r \<le> bottom b \<and> top' r \<ge> top' b"

text \<open>
  All points stored in a tree: those of the node, then those of its subnodes in
  the order of their indices.
\<close>

fun all_points :: "'a Quadtree \<Rightarrow> 'a point_scheme list" where
  "all_points (Quadtree mo ml l b os ns) = os @ concat (map all_points ns)"

text \<open>All nodes of a tree, the tree itself first.\<close>

fun subtrees :: "'a Quadtree \<Rightarrow> 'a Quadtree list" where
  "subtrees (Quadtree mo ml l b os ns) =
     Quadtree mo ml l b os ns # concat (map subtrees ns)"

text \<open>The number of levels below the root.\<close>

fun depth :: "'a Quadtree \<Rightarrow> nat" where
  "depth (Quadtree mo ml l b os ns) =
     (if ns = [] then 0 else Suc (fold max (map depth ns) 0))"

text \<open>
  The depth of recursion that \<open>insert\<close> is claimed to need on a node:
  \<open>max_levels - level\<close>, and none when that is negative.
\<close>

definition levels_left :: "'a Quadtree \<Rightarrow> nat" where
  "levels_left t = nat (max_levels t - level t)"

text \<open>
  A depth of recursion that suffices for \<open>insert\<close> on any tree whatsoever: a leaf
  below \<open>max_levels\<close> may split, and its subnodes (which get \<open>max_levels || 4\<close> and
  the level plus one) may split in turn, up to their \<open>max_levels\<close>.
\<close>

fun budget :: "'a Quadtree \<Rightarrow> nat" where
  "budget (Quadtree mo ml l b os ns) =
     (if ns = []
      then (if l < ml then Suc (nat (js_or (Some ml) 4 - (l + 1))) else 0)
      else Suc (fold max (map budget ns) 0))"

text \<open>
  The invariant of the trees that the constructor and \<open>insert\<close> build. The
  parameters are not \<open>0\<close>, \<open>width\<close> and \<open>height\<close> are those of the rectangle, and a
  node with subnodes holds no objects, has a level below \<open>max_levels\<close>, has the four
  subnodes of \<open>split\<close> (up to their contents), and stores each point in the
  subnode that \<open>getIndexForPoint\<close> gives.
\<close>

fun tree_inv :: "'a Quadtree \<Rightarrow> bool" where
  "tree_inv (Quadtree mo ml l b os ns) \<longleftrightarrow>
     mo \<noteq> 0 \<and> ml \<noteq> 0
     \<and> width b = right b - left b \<and> height b = top' b - bottom b
     \<and> (ns \<noteq> [] \<longrightarrow>
          os = [] \<and> l < ml
          \<and> map clear ns = nodes (split (Quadtree mo ml l b [] []))
          \<and> (\<forall>c \<in> set ns. tree_inv c)
          \<and> (\<forall>i < length ns. \<forall>p \<in> set (all_points (ns ! i)).
                getIndexForPoint (Quadtree mo ml l b os ns) p = int i))"

text \<open>
  The points \<open>ps\<close> have the same index on the node \<open>t\<close>, and again on the subnode
  of that index that \<open>split\<close> creates, and so on for \<open>d\<close> levels.
\<close>

fun same_index :: "nat \<Rightarrow> 'a Quadtree \<Rightarrow> 'b point_scheme list \<Rightarrow> bool" where
  "same_index 0 t ps = True"
| "same_index (Suc d) t ps =
     (case ps of
        [] \<Rightarrow> True
      | p # qs \<Rightarrow>
          (\<forall>q \<in> set qs. getIndexForPoint t q = getIndexForPoint t p)
          \<and> same_index d (nodes (split (clear t)) ! nat (getIndexForPoint t p)) ps)"

text \<open>
  The tree with one split node per level for \<open>d\<close> levels, along the index of the
  first point, and all points in the leaf at the end.
\<close>

fun chain :: "nat \<Rightarrow> 'a Quadtree \<Rightarrow> 'a point_scheme list \<Rightarrow> 'a Quadtree" where
  "chain 0 t ps = set_objects t ps"
| "chain (Suc d) t ps =
     (let i = nat (getIndexForPoint t (hd ps))
      in set_node (split t) i (chain d (nodes (split t) ! i) ps))"

text \<open>The leaf into which \<open>insert\<close> would descend with the point \<open>p\<close>.\<close>

function descend :: "'a Quadtree \<Rightarrow> 'b point_scheme \<Rightarrow> 'a Quadtree" where
  "descend t p =
     (if nodes t = [] then t
      else (case node_at t (nat (getIndexForPoint t p)) of
              None \<Rightarrow> t
            | Some c \<Rightarrow> descend c p))"
  by pat_completeness auto
termination
proof -
  have sz: "size c < size t" if "node_at t i = Some c" for t :: "'a Quadtree" and i c
  proof -
    from that have "c \<in> set (nodes t)"
      by (auto simp: node_at_def split: if_splits)
    then have "size c < Suc (size_list size (nodes t))"
      by (induction "nodes t" arbitrary: t)
         (simp, metis less_Suc_eq_le size_list_estimation' order_refl)
    then show ?thesis by (cases t) simp
  qed
  show ?thesis
    by (relation "measure (\<lambda>(t, p). size t)") (auto dest: sz)
qed

text \<open>
  A second scenario: \<open>max_objects = 2\<close>, \<open>max_levels = 2\<close>, four points near the
  corner (0, 0), and the tree that the four calls of \<open>insert\<close> build.
\<close>

definition crowd_root :: "unit Quadtree" where
  "crowd_root =
     Quadtree_new \<lparr>left = 0, right = 100, bottom = 0, top' = 100\<rparr> (Some 2) (Some 2) None"

definition crowd_points :: "point list" where
  "crowd_points = [\<lparr>lon = 1, lat = 1\<rparr>, \<lparr>lon = 2, lat = 2\<rparr>, \<lparr>lon = 3, lat = 3\<rparr>,
                   \<lparr>lon = 4, lat = 4\<rparr>]"

definition crowd_tree :: "unit Quadtree" where
  "crowd_tree =
     Quadtree 2 2 0
       \<lparr>left = 0, right = 100, bottom = 0, top' = 100, width = 100, height = 100\<rparr> []
       [Quadtree 2 2 1
          \<lparr>left = 50, right = 100, bottom = 0, top' = 50, width = 50, height = 50\<rparr> [] [],
        Quadtree 2 2 1
          \<lparr>left = 0, right = 50, bottom = 0, top' = 50, width = 50, height = 50\<rparr> []
          [Quadtree 2 2 2
             \<lparr>left = 25, right = 50, bottom = 0, top' = 25, width = 25, height = 25\<rparr> [] [],
           Quadtree 2 2 2
             \<lparr>left = 0, right = 25, bottom = 0, top' = 25, width = 25, height = 25\<rparr>
             [\<lparr>lon = 1, lat = 1\<rparr>, \<lparr>lon = 2, lat = 2\<rparr>, \<lparr>lon = 3, lat = 3\<rparr>,
              \<lparr>lon = 4, lat = 4\<rparr>] [],
           Quadtree 2 2 2
             \<lparr>left = 0, right = 25, bottom = 25, top' = 50, width = 25, height = 25\<rparr> [] [],
           Quadtree 2 2 2
             \<lparr>left = 25, right = 50, bottom = 25, top' = 50, width = 25, height = 25\<rparr> [] []],
        Quadtree 2 2 1
          \<lparr>left = 0, right = 50, bottom = 50, top' = 100, width = 50, height = 50\<rparr> [] [],
        Quadtree 2 2 1
          \<lparr>left = 50, right = 100, bottom = 50, top' = 100, width = 50, height = 50\<rparr> [] []]"

definition crowd_leaf :: "unit Quadtree" where
  "crowd_leaf =
     Quadtree 2 2 2
       \<lparr>left = 0, right = 25, bottom = 0, top' = 25, width = 25, height = 25\<rparr>
       [\<lparr>lon = 1, lat = 1\<rparr>, \<lparr>lon = 2, lat = 2\<rparr>, \<lparr>lon = 3, lat = 3\<rparr>, \<lparr>lon = 4, lat = 4\<rparr>] []"

text \<open>
  The scenario of the specification: bounds \<open>{left: 0, right: 100, bottom: 0, top: 100}\<close>,
  \<open>max_objects = 2\<close>, \<open>max_levels = 4\<close>, the points (10, 10), (20, 20), (30, 30), and
  the tree that the three calls of \<open>insert\<close> build.
\<close>

definition scenario_root :: "unit Quadtree" where
  "scenario_root =
     Quadtree_new \<lparr>left = 0, right = 100, bottom = 0, top' = 100\<rparr> (Some 2) (Some 4) None"

definition scenario_points :: "point list" where
  "scenario_points = [\<lparr>lon = 10, lat = 10\<rparr>, \<lparr>lon = 20, lat = 20\<rparr>, \<lparr>lon = 30, lat = 30\<rparr>]"

definition scenario_tree :: "unit Quadtree" where
  "scenario_tree =
     Quadtree 2 4 0
       \<lparr>left = 0, right = 100, bottom = 0, top' = 100, width = 100, height = 100\<rparr> []
       [Quadtree 2 4 1
          \<lparr>left = 50, right = 100, bottom = 0, top' = 50, width = 50, height = 50\<rparr> [] [],
        Quadtree 2 4 1
          \<lparr>left = 0, right = 50, bottom = 0, top' = 50, width = 50, height = 50\<rparr> []
          [Quadtree 2 4 2
             \<lparr>left = 25, right = 50, bottom = 0, top' = 25, width = 25, height = 25\<rparr> [] [],
           Quadtree 2 4 2
             \<lparr>left = 0, right = 25, bottom = 0, top' = 25, width = 25, height = 25\<rparr>
             [\<lparr>lon = 10, lat = 10\<rparr>, \<lparr>lon = 20, lat = 20\<rparr>] [],
           Quadtree 2 4 2
             \<lparr>left = 0, right = 25, bottom = 25, top' = 50, width = 25, height = 25\<rparr> [] [],
           Quadtree 2 4 2
             \<lparr>left = 25, right = 50, bottom = 25, top' = 50, width = 25, height = 25\<rparr>
             [\<lparr>lon = 30, lat = 30\<rparr>] []],
        Quadtree 2 4 1
          \<lparr>left = 0, right = 50, bottom = 50, top' = 100, width = 50, height = 50\<rparr> [] [],
        Quadtree 2 4 1
          \<lparr>left = 50, right = 100, bottom = 50, top' = 100, width = 50, height = 50\<rparr> [] []]"

section \<open>Basic facts\<close>

lemma getIndexForPoint_range: "getIndexForPoint t p \<in> {0, 1, 2, 3}"
  by (simp add: getIndexForPoint_def Let_def)

lemma getIndexForPoint_not_minus1: "getIndexForPoint t p \<noteq> - 1"
  using getIndexForPoint_range [of t p] by auto

lemma getIndexForPoint_nat: "nat (getIndexForPoint t p) < 4" "int (nat (getIndexForPoint t p)) = getIndexForPoint t p"
  using getIndexForPoint_range [of t p] by auto

lemma getIndexForPoint_bounds:
  "bounds t = bounds t' \<Longrightarrow> getIndexForPoint t p = getIndexForPoint t' p"
  by (simp add: getIndexForPoint_def)

lemma set_objects_sel [simp]:
  "max_objects (set_objects t os) = max_objects t"
  "max_levels (set_objects t os) = max_levels t"
  "level (set_objects t os) = level t"
  "bounds (set_objects t os) = bounds t"
  "objects (set_objects t os) = os"
  "nodes (set_objects t os) = nodes t"
  by (simp_all add: set_objects_def)

lemma set_node_sel [simp]:
  "max_objects (set_node t i c) = max_objects t"
  "max_levels (set_node t i c) = max_levels t"
  "level (set_node t i c) = level t"
  "bounds (set_node t i c) = bounds t"
  "objects (set_node t i c) = objects t"
  "nodes (set_node t i c) = (nodes t)[i := c]"
  by (simp_all add: set_node_def)

lemma split_sel [simp]:
  "max_objects (split t) = max_objects t"
  "max_levels (split t) = max_levels t"
  "level (split t) = level t"
  "bounds (split t) = bounds t"
  "objects (split t) = objects t"
  by (simp_all add: split_def Let_def)

lemma clear_sel [simp]:
  "max_objects (clear t) = max_objects t"
  "max_levels (clear t) = max_levels t"
  "level (clear t) = level t"
  "bounds (clear t) = bounds t"
  "objects (clear t) = []"
  "nodes (clear t) = []"
  by (cases t; simp)+

lemma clear_eq_iff:
  "clear t = clear t' \<longleftrightarrow> max_objects t = max_objects t' \<and> max_levels t = max_levels t'
     \<and> level t = level t' \<and> bounds t = bounds t'"
  by (cases t; cases t') auto

lemma all_points_sel: "all_points t = objects t @ concat (map all_points (nodes t))"
  by (cases t) simp

lemma mset_all_points_update:
  "i < length ns \<Longrightarrow> mset (all_points c') = mset (all_points (ns ! i)) + M \<Longrightarrow>
   mset (concat (map all_points (ns[i := c']))) = mset (concat (map all_points ns)) + M"
proof (induction ns arbitrary: i)
  case Nil
  then show ?case by simp
next
  case (Cons a ns)
  then show ?case by (cases i) auto
qed

declare insert_qt.simps [simp del] redistribute.simps [simp del]


lemma insert_qt_inner:
  "nodes t \<noteq> [] \<Longrightarrow> insert_qt fuel t p =
     (case fuel of
        0 \<Rightarrow> Inl OutOfFuel
      | Suc f \<Rightarrow>
          (case node_at t (nat (getIndexForPoint t p)) of
             None \<Rightarrow> Inl TypeError
           | Some c \<Rightarrow>
               (case insert_qt f c p of
                  Inl e \<Rightarrow> Inl e
                | Inr c' \<Rightarrow> Inr (set_node t (nat (getIndexForPoint t p)) c'))))"
  by (subst insert_qt.simps) (simp add: Let_def getIndexForPoint_not_minus1)

lemma insert_qt_leaf:
  "nodes t = [] \<Longrightarrow> insert_qt fuel t p =
     (if int (length (objects t)) + 1 > max_objects t \<and> level t < max_levels t
      then redistribute fuel (split (set_objects t (objects t @ [p]))) 0
      else Inr (set_objects t (objects t @ [p])))"
  by (subst insert_qt.simps) (simp add: Let_def)

lemma redistribute_step:
  "i < length (objects t) \<Longrightarrow> redistribute fuel t i =
     (case fuel of
        0 \<Rightarrow> Inl OutOfFuel
      | Suc f \<Rightarrow>
          (case node_at t (nat (getIndexForPoint t (objects t ! i))) of
             None \<Rightarrow> Inl TypeError
           | Some c \<Rightarrow>
               (case insert_qt f c (objects t ! i) of
                  Inl e \<Rightarrow> Inl e
                | Inr c' \<Rightarrow>
                    redistribute fuel
                      (set_node (set_objects t (splice1 i (objects t)))
                         (nat (getIndexForPoint t (objects t ! i))) c') i)))"
  by (subst redistribute.simps) (simp add: Let_def getIndexForPoint_not_minus1)

lemma redistribute_done:
  "\<not> i < length (objects t) \<Longrightarrow> redistribute fuel t i = Inr t"
  by (subst redistribute.simps) simp

lemma mset_splice1:
  "i < length xs \<Longrightarrow> mset (splice1 i xs) + {#xs ! i#} = mset xs"
proof -
  assume a: "i < length xs"
  have "mset xs = mset (take i xs @ (xs ! i) # drop (Suc i) xs)"
    using a by (simp add: id_take_nth_drop [symmetric])
  then show ?thesis by (simp add: splice1_def)
qed


lemma node_at_Some: "node_at t k = Some c \<longleftrightarrow> k < length (nodes t) \<and> c = nodes t ! k"
  by (auto simp: node_at_def)

lemma frame:
  "(\<forall>t'. insert_qt fuel t p = Inr t' \<longrightarrow>
      clear t' = clear t \<and> mset (all_points t') = mset (all_points t) + {#p#})"
  "(\<forall>t'. redistribute fuel t i = Inr t' \<longrightarrow>
      clear t' = clear t \<and> objects t' = take i (objects t)
      \<and> length (nodes t') = length (nodes t)
      \<and> mset (all_points t') = mset (all_points t))"
proof (induction fuel t p and fuel t i rule: insert_qt_redistribute.induct)
  case (1 fuel t p)
  show ?case
  proof (intro allI impI)
    fix t' assume r: "insert_qt fuel t p = Inr t'"
    show "clear t' = clear t \<and> mset (all_points t') = mset (all_points t) + {#p#}"
    proof (cases "nodes t \<noteq> []")
      case True
      let ?k = "nat (getIndexForPoint t p)"
      from r True obtain f c c' where f: "fuel = Suc f"
        and c: "node_at t ?k = Some c"
        and c': "insert_qt f c p = Inr c'"
        and t': "t' = set_node t ?k c'"
        by (auto simp: insert_qt_inner split: nat.splits option.splits sum.splits)
      from "1.IH"(1) [OF refl refl _ f c] True c'
      have ih: "clear c' = clear c" "mset (all_points c') = mset (all_points c) + {#p#}"
        by (auto simp: getIndexForPoint_not_minus1)
      from c have lt: "?k < length (nodes t)" and ceq: "c = nodes t ! ?k"
        by (simp_all add: node_at_Some)
      show ?thesis
        using mset_all_points_update [OF lt, of c' "{#p#}"] ih ceq
        by (simp add: t' clear_eq_iff all_points_sel [of t] all_points_sel [of "set_node t ?k c'"])
    next
      case False
      let ?t1 = "set_objects t (objects t @ [p])"
      show ?thesis
      proof (cases "max_objects t < int (length (objects t)) + 1 \<and> level t < max_levels t")
        case True
        with r False have rr: "redistribute fuel (split ?t1) 0 = Inr t'"
          by (simp add: insert_qt_leaf)
        have "clear t' = clear (split ?t1) \<and> mset (all_points t') = mset (all_points (split ?t1))"
          using "1.IH"(2) [OF refl refl _ refl] True False rr by simp
        moreover have "all_points (split ?t1) = objects t @ [p]"
          using False by (simp add: all_points_sel [of "split ?t1"] split_def Let_def Quadtree_new_def)
        ultimately show ?thesis
          using False by (simp add: clear_eq_iff all_points_sel [of t])
      next
        case F2: False
        with r False have "t' = ?t1"
          by (auto simp add: insert_qt_leaf)
        then show ?thesis
          using False by (simp add: clear_eq_iff all_points_sel [of t] all_points_sel [of ?t1])
      qed
    qed
  qed
next
  case (2 fuel t i)
  show ?case
  proof (intro allI impI)
    fix t' assume r: "redistribute fuel t i = Inr t'"
    show "clear t' = clear t \<and> objects t' = take i (objects t)
      \<and> length (nodes t') = length (nodes t)
      \<and> mset (all_points t') = mset (all_points t)"
    proof (cases "i < length (objects t)")
      case True
      let ?q = "objects t ! i"
      let ?k = "nat (getIndexForPoint t ?q)"
      let ?t2 = "\<lambda>c'. set_node (set_objects t (splice1 i (objects t))) ?k c'"
      from r True obtain f c c' where f: "fuel = Suc f"
        and c: "node_at t ?k = Some c"
        and c': "insert_qt f c ?q = Inr c'"
        and rr: "redistribute fuel (?t2 c') i = Inr t'"
        by (auto simp: redistribute_step split: nat.splits option.splits sum.splits)
      from "2.IH"(1) [OF True refl getIndexForPoint_not_minus1 f c] c'
      have ih1: "clear c' = clear c" "mset (all_points c') = mset (all_points c) + {#?q#}"
        by auto
      from "2.IH"(2) [OF True refl getIndexForPoint_not_minus1 f c c'] rr
      have ih2: "clear t' = clear (?t2 c')" "objects t' = take i (objects (?t2 c'))"
        "length (nodes t') = length (nodes (?t2 c'))" "mset (all_points t') = mset (all_points (?t2 c'))"
        by auto
      from c have lt: "?k < length (nodes t)" and ceq: "c = nodes t ! ?k"
        by (simp_all add: node_at_Some)
      have "mset (all_points (?t2 c')) = mset (all_points t)"
        using mset_all_points_update [OF lt, of c' "{#?q#}"] ih1 ceq
        by (simp add: all_points_sel [of t] all_points_sel [of "?t2 c'"] mset_splice1 [OF True, symmetric])
      then show ?thesis
        using ih2 True by (simp add: clear_eq_iff splice1_def)
    next
      case False
      with r have "t' = t" by (simp add: redistribute_done)
      then show ?thesis using False by simp
    qed
  qed
qed

section \<open>The invariant is kept by insert\<close>

lemma tree_inv_sel:
  "tree_inv t \<longleftrightarrow>
     max_objects t \<noteq> 0 \<and> max_levels t \<noteq> 0
     \<and> width (bounds t) = right (bounds t) - left (bounds t)
     \<and> height (bounds t) = top' (bounds t) - bottom (bounds t)
     \<and> (nodes t \<noteq> [] \<longrightarrow>
          objects t = [] \<and> level t < max_levels t
          \<and> map clear (nodes t) = nodes (split (clear t))
          \<and> (\<forall>c \<in> set (nodes t). tree_inv c)
          \<and> (\<forall>i < length (nodes t). \<forall>p \<in> set (all_points (nodes t ! i)).
                getIndexForPoint t p = int i))"
  by (cases t) simp

declare tree_inv.simps [simp del]

lemma set_objects_id: "objects t = os \<Longrightarrow> set_objects t os = t"
  by (cases t) (simp add: set_objects_def)

lemma set_objects_set_node:
  "set_objects (set_node t k c) os = set_node (set_objects t os) k c"
  by (simp add: set_objects_def set_node_def)

lemma set_objects_twice: "set_objects (set_objects t os) os' = set_objects t os'"
  by (simp add: set_objects_def)

lemma clear_set_objects [simp]: "clear (set_objects t os) = clear t"
  by (simp add: clear_eq_iff)

lemma clear_set_node [simp]: "clear (set_node t k c) = clear t"
  by (simp add: clear_eq_iff)

lemma clear_split [simp]: "clear (split t) = clear t"
  by (simp add: clear_eq_iff)

lemma clear_clear [simp]: "clear (clear t) = clear t"
  by (simp add: clear_eq_iff)

lemma nodes_split_clear:
  "nodes (split (clear t)) =
     [Quadtree_new \<lparr>left = horMidpoint t, right = right (bounds t),
                     bottom = bottom (bounds t), top' = verMidpoint t\<rparr>
        (Some (max_objects t)) (Some (max_levels t)) (Some (level t + 1)),
      Quadtree_new \<lparr>left = left (bounds t), right = horMidpoint t,
                     bottom = bottom (bounds t), top' = verMidpoint t\<rparr>
        (Some (max_objects t)) (Some (max_levels t)) (Some (level t + 1)),
      Quadtree_new \<lparr>left = left (bounds t), right = horMidpoint t,
                     bottom = verMidpoint t, top' = top' (bounds t)\<rparr>
        (Some (max_objects t)) (Some (max_levels t)) (Some (level t + 1)),
      Quadtree_new \<lparr>left = horMidpoint t, right = right (bounds t),
                     bottom = verMidpoint t, top' = top' (bounds t)\<rparr>
        (Some (max_objects t)) (Some (max_levels t)) (Some (level t + 1))]"
  by (simp add: split_def Let_def horMidpoint_def verMidpoint_def)

lemma length_nodes_split_clear [simp]: "length (nodes (split (clear t))) = 4"
  by (simp add: nodes_split_clear)

lemma Quadtree_new_sel [simp]:
  "max_objects (Quadtree_new b mo ml lv) = js_or mo 10"
  "max_levels (Quadtree_new b mo ml lv) = js_or ml 4"
  "level (Quadtree_new b mo ml lv) = js_or lv 0"
  "objects (Quadtree_new b mo ml lv) = []"
  "nodes (Quadtree_new b mo ml lv) = []"
  "left (bounds (Quadtree_new b mo ml lv)) = left b"
  "right (bounds (Quadtree_new b mo ml lv)) = right b"
  "bottom (bounds (Quadtree_new b mo ml lv)) = bottom b"
  "top' (bounds (Quadtree_new b mo ml lv)) = top' b"
  "width (bounds (Quadtree_new b mo ml lv)) = right b - left b"
  "height (bounds (Quadtree_new b mo ml lv)) = top' b - bottom b"
  by (simp_all add: Quadtree_new_def)

lemma clear_Quadtree_new: "clear (Quadtree_new b mo ml lv) = Quadtree_new b mo ml lv"
  by (simp add: Quadtree_new_def)

lemma all_points_Quadtree_new: "all_points (Quadtree_new b mo ml lv) = []"
  by (simp add: Quadtree_new_def)

lemma js_or_Some: "js_or (Some v) d = (if v = 0 then d else v)"
  by (simp add: js_or_def)

lemma js_or_level [simp]: "js_or (Some v) 0 = v"
  by (simp add: js_or_def)

lemma tree_inv_Quadtree_new: "tree_inv (Quadtree_new b mo ml lv)"
  by (subst tree_inv_sel) (simp add: js_or_def split: option.splits)

text \<open>What the shape part of the invariant says about a subnode.\<close>

lemma child_header:
  assumes "map clear (nodes t) = nodes (split (clear t))" and "k < 4"
  shows "length (nodes t) = 4"
    and "clear (nodes t ! k) = nodes (split (clear t)) ! k"
    and "level (nodes t ! k) = level t + 1"
    and "max_levels (nodes t ! k) = js_or (Some (max_levels t)) 4"
    and "max_objects (nodes t ! k) = js_or (Some (max_objects t)) 10"
proof -
  have "length (map clear (nodes t)) = 4"
    by (simp only: assms(1) length_nodes_split_clear)
  then show len: "length (nodes t) = 4" by simp
  have "map clear (nodes t) ! k = nodes (split (clear t)) ! k"
    by (simp only: assms(1))
  with len assms(2) show c: "clear (nodes t ! k) = nodes (split (clear t)) ! k" by simp
  have k: "k = 0 \<or> k = 1 \<or> k = 2 \<or> k = 3" using assms(2) by arith
  have "level (clear (nodes t ! k)) = level t + 1"
    unfolding c nodes_split_clear using k by (elim disjE) simp_all
  then show "level (nodes t ! k) = level t + 1" by simp
  have "max_levels (clear (nodes t ! k)) = js_or (Some (max_levels t)) 4"
    unfolding c nodes_split_clear using k by (elim disjE) simp_all
  then show "max_levels (nodes t ! k) = js_or (Some (max_levels t)) 4" by simp
  have "max_objects (clear (nodes t ! k)) = js_or (Some (max_objects t)) 10"
    unfolding c nodes_split_clear using k by (elim disjE) simp_all
  then show "max_objects (nodes t ! k) = js_or (Some (max_objects t)) 10" by simp
qed

lemma tree_inv_split_clear:
  assumes "tree_inv t" "nodes t = []" "level t < max_levels t"
  shows "tree_inv (split (clear t))"
proof -
  have m: "max_objects t \<noteq> 0" "max_levels t \<noteq> 0"
    "width (bounds t) = right (bounds t) - left (bounds t)"
    "height (bounds t) = top' (bounds t) - bottom (bounds t)"
    using assms(1) by (simp_all add: tree_inv_sel [of t])
  have a: "\<forall>c \<in> set (nodes (split (clear t))). tree_inv c \<and> clear c = c \<and> all_points c = []"
    by (simp add: nodes_split_clear tree_inv_Quadtree_new clear_Quadtree_new all_points_Quadtree_new)
  then have "map clear (nodes (split (clear t))) = nodes (split (clear t))"
    by (simp add: map_idI)
  moreover have "\<forall>i < length (nodes (split (clear t))).
       \<forall>p \<in> set (all_points (nodes (split (clear t)) ! i)). getIndexForPoint (split (clear t)) p = int i"
    using a by (metis empty_iff list.set(1) nth_mem)
  ultimately show ?thesis
    using m a assms(3) by (subst tree_inv_sel) simp
qed

lemma child_replace:
  assumes inv: "tree_inv (set_objects t [])" and ne: "nodes t \<noteq> []"
    and k: "k = nat (getIndexForPoint t q)"
    and c': "tree_inv c'" "clear c' = clear (nodes t ! k)"
      "set (all_points c') = insert q (set (all_points (nodes t ! k)))"
  shows "tree_inv (set_objects (set_node t k c') [])"
proof -
  from inv ne have sh: "map clear (nodes t) = nodes (split (clear t))"
    and ch: "\<forall>c \<in> set (nodes t). tree_inv c"
    and loc: "\<forall>i < length (nodes t). \<forall>p \<in> set (all_points (nodes t ! i)). getIndexForPoint t p = int i"
    and m: "max_objects t \<noteq> 0" "max_levels t \<noteq> 0"
    "width (bounds t) = right (bounds t) - left (bounds t)"
    "height (bounds t) = top' (bounds t) - bottom (bounds t)" "level t < max_levels t"
    by (simp_all add: tree_inv_sel [of "set_objects t []"] getIndexForPoint_bounds [of "set_objects t []" t])
  have k4: "k < 4" using k getIndexForPoint_nat(1) by simp
  have len: "length (nodes t) = 4" using child_header(1) [OF sh k4] .
  have ik: "int k = getIndexForPoint t q" unfolding k by (rule getIndexForPoint_nat(2))
  have 1: "map clear ((nodes t)[k := c']) = nodes (split (clear t))"
    using sh c'(2) by (simp add: map_update list_update_same_conv len k4 flip: sh)
  have 2: "\<forall>c \<in> set ((nodes t)[k := c']). tree_inv c"
    using ch c'(1) set_update_subset_insert [of "nodes t" k c'] by auto
  have 3: "\<forall>i < length ((nodes t)[k := c']). \<forall>p \<in> set (all_points ((nodes t)[k := c'] ! i)).
             getIndexForPoint t p = int i"
  proof (intro allI impI ballI)
    fix i p assume i: "i < length ((nodes t)[k := c'])"
      and p: "p \<in> set (all_points ((nodes t)[k := c'] ! i))"
    show "getIndexForPoint t p = int i"
    proof (cases "i = k")
      case True
      with p i have "p = q \<or> p \<in> set (all_points (nodes t ! k))" using c'(3) by auto
      then show ?thesis using loc ik True i by auto
    next
      case False
      then show ?thesis using loc p i by auto
    qed
  qed
  show ?thesis
    using 1 2 3 m ne
    by (subst tree_inv_sel)
       (simp add: getIndexForPoint_bounds [of "set_objects (set_node t k c') []" t])
qed

lemma tree_inv_child:
  assumes inv: "tree_inv (set_objects t [])" and ne: "nodes t \<noteq> []" and k: "k < 4"
  shows "node_at t k = Some (nodes t ! k)" and "tree_inv (nodes t ! k)"
    and "Suc (levels_left (nodes t ! k)) = levels_left t"
proof -
  from inv ne have sh: "map clear (nodes t) = nodes (split (clear t))"
    and ch: "\<forall>c \<in> set (nodes t). tree_inv c"
    and m: "max_levels t \<noteq> 0" "level t < max_levels t"
    by (simp_all add: tree_inv_sel [of "set_objects t []"])
  note h = child_header [OF sh k]
  show "node_at t k = Some (nodes t ! k)" using h(1) k by (simp add: node_at_def)
  show "tree_inv (nodes t ! k)" using ch h(1) k by simp
  show "Suc (levels_left (nodes t ! k)) = levels_left t"
    using m h(3,4) by (simp add: levels_left_def js_or_Some)
qed

lemma insert_inv:
  "tree_inv t \<longrightarrow> levels_left t \<le> fuel \<longrightarrow>
     (\<exists>t'. insert_qt fuel t p = Inr t' \<and> tree_inv t')"
  "nodes t \<noteq> [] \<longrightarrow> tree_inv (set_objects t []) \<longrightarrow> levels_left t \<le> fuel \<longrightarrow>
     (\<exists>t'. redistribute fuel t i = Inr t' \<and> tree_inv (set_objects t' []))"
proof (induction fuel t p and fuel t i rule: insert_qt_redistribute.induct)
  case (1 fuel t p)
  show ?case
  proof (intro impI)
    assume inv: "tree_inv t" and fuel: "levels_left t \<le> fuel"
    show "\<exists>t'. insert_qt fuel t p = Inr t' \<and> tree_inv t'"
    proof (cases "nodes t \<noteq> []")
      case True
      let ?k = "nat (getIndexForPoint t p)"
      let ?c = "nodes t ! ?k"
      from inv True have os: "objects t = []" by (simp add: tree_inv_sel [of t])
      then have inv0: "tree_inv (set_objects t [])" using inv by (simp add: set_objects_id)
      note ch = tree_inv_child [OF inv0 True getIndexForPoint_nat(1) [of t p]]
      from ch(3) fuel obtain f where f: "fuel = Suc f" and lf: "levels_left ?c \<le> f"
        by (cases fuel) auto
      from "1.IH"(1) [OF refl refl _ f ch(1)] True ch(2) lf
      obtain c' where c': "insert_qt f ?c p = Inr c'" "tree_inv c'"
        by (auto simp: getIndexForPoint_not_minus1)
      from frame(1) [of f ?c p] c'(1)
      have fr: "clear c' = clear ?c" "mset (all_points c') = mset (all_points ?c) + {#p#}"
        by auto
      from fr(2) have "set (all_points c') = insert p (set (all_points ?c))"
        by (metis add_mset_add_single set_mset_add_mset_insert set_mset_mset)
      from child_replace [OF inv0 True refl c'(2) fr(1) this]
      have "tree_inv (set_node t ?k c')"
        using os by (simp add: set_objects_id)
      moreover have "insert_qt fuel t p = Inr (set_node t ?k c')"
        using True f ch(1) c'(1) by (simp add: insert_qt_inner)
      ultimately show ?thesis by blast
    next
      case False
      then have leaf: "nodes t = []" by simp
      let ?t1 = "set_objects t (objects t @ [p])"
      show ?thesis
      proof (cases "max_objects t < int (length (objects t)) + 1 \<and> level t < max_levels t")
        case True
        have s0: "set_objects (split ?t1) [] = split (clear t)"
          using leaf by (cases t) (simp add: split_def set_objects_def Let_def horMidpoint_def verMidpoint_def)
        have ne: "nodes (split ?t1) \<noteq> []" by (simp add: split_def Let_def)
        have i0: "tree_inv (set_objects (split ?t1) [])"
          unfolding s0 using inv leaf True by (intro tree_inv_split_clear) simp_all
        have ll: "levels_left (split ?t1) \<le> fuel" using fuel by (simp add: levels_left_def)
        from "1.IH"(2) [OF refl refl _ refl] leaf True ne i0 ll
        obtain t' where t': "redistribute fuel (split ?t1) 0 = Inr t'" "tree_inv (set_objects t' [])"
          by auto
        from frame(2) [of fuel "split ?t1" 0] t'(1) have "objects t' = []" by simp
        with t'(2) have "tree_inv t'" by (simp add: set_objects_id)
        moreover have "insert_qt fuel t p = Inr t'"
          using leaf True t'(1) by (simp add: insert_qt_leaf)
        ultimately show ?thesis by blast
      next
        case F: False
        have "tree_inv ?t1"
          using inv leaf by (subst tree_inv_sel) (simp add: tree_inv_sel [of t])
        moreover have "insert_qt fuel t p = Inr ?t1"
          using leaf F by (auto simp add: insert_qt_leaf)
        ultimately show ?thesis by blast
      qed
    qed
  qed
next
  case (2 fuel t i)
  show ?case
  proof (intro impI)
    assume ne: "nodes t \<noteq> []" and inv0: "tree_inv (set_objects t [])"
      and fuel: "levels_left t \<le> fuel"
    show "\<exists>t'. redistribute fuel t i = Inr t' \<and> tree_inv (set_objects t' [])"
    proof (cases "i < length (objects t)")
      case True
      let ?q = "objects t ! i"
      let ?k = "nat (getIndexForPoint t ?q)"
      let ?c = "nodes t ! ?k"
      let ?t2 = "\<lambda>c'. set_node (set_objects t (splice1 i (objects t))) ?k c'"
      note ch = tree_inv_child [OF inv0 ne getIndexForPoint_nat(1) [of t ?q]]
      from ch(3) fuel obtain f where f: "fuel = Suc f" and lf: "levels_left ?c \<le> f"
        by (cases fuel) auto
      from "2.IH"(1) [OF True refl getIndexForPoint_not_minus1 f ch(1)] ch(2) lf
      obtain c' where c': "insert_qt f ?c ?q = Inr c'" "tree_inv c'"
        by auto
      from frame(1) [of f ?c ?q] c'(1)
      have fr: "clear c' = clear ?c" "mset (all_points c') = mset (all_points ?c) + {#?q#}"
        by auto
      from fr(2) have "set (all_points c') = insert ?q (set (all_points ?c))"
        by (metis add_mset_add_single set_mset_add_mset_insert set_mset_mset)
      from child_replace [OF inv0 ne refl c'(2) fr(1) this]
      have i2: "tree_inv (set_objects (?t2 c') [])"
        by (simp add: set_objects_set_node set_objects_twice)
      have ne2: "nodes (?t2 c') \<noteq> []" using ne by simp
      have ll: "levels_left (?t2 c') \<le> fuel" using fuel by (simp add: levels_left_def)
      from "2.IH"(2) [OF True refl getIndexForPoint_not_minus1 f ch(1) c'(1)] ne2 i2 ll
      obtain t' where t': "redistribute fuel (?t2 c') i = Inr t'" "tree_inv (set_objects t' [])"
        by auto
      have "redistribute fuel t i = Inr t'"
        using True f ch(1) c'(1) t'(1) by (simp add: redistribute_step)
      with t'(2) show ?thesis by blast
    next
      case False
      then show ?thesis using inv0 by (simp add: redistribute_done)
    qed
  qed
qed

section \<open>Many inserts\<close>

lemma inserts_inv:
  "tree_inv t \<Longrightarrow> levels_left t \<le> fuel \<Longrightarrow>
   \<exists>t'. inserts fuel t ps = Inr t' \<and> tree_inv t' \<and> clear t' = clear t
        \<and> mset (all_points t') = mset (all_points t) + mset ps"
proof (induction ps arbitrary: t)
  case Nil
  then show ?case by simp
next
  case (Cons p ps)
  from insert_inv(1) [of t fuel p] Cons.prems
  obtain t1 where t1: "insert_qt fuel t p = Inr t1" "tree_inv t1" by blast
  from frame(1) [of fuel t p] t1(1)
  have fr: "clear t1 = clear t" "mset (all_points t1) = mset (all_points t) + {#p#}" by auto
  from fr(1) have "levels_left t1 = levels_left t"
    by (simp add: clear_eq_iff levels_left_def)
  with Cons.IH [OF t1(2)] Cons.prems(2)
  obtain t' where "inserts fuel t1 ps = Inr t'" "tree_inv t'" "clear t' = clear t1"
      "mset (all_points t') = mset (all_points t1) + mset ps"
    by auto
  with t1(1) fr show ?case by simp
qed

lemma child_bounds:
  assumes "map clear (nodes t) = nodes (split (clear t))"
  shows "left (bounds (nodes t ! 0)) = horMidpoint t" "right (bounds (nodes t ! 0)) = right (bounds t)"
        "bottom (bounds (nodes t ! 0)) = bottom (bounds t)" "top' (bounds (nodes t ! 0)) = verMidpoint t"
        "left (bounds (nodes t ! 1)) = left (bounds t)" "right (bounds (nodes t ! 1)) = horMidpoint t"
        "bottom (bounds (nodes t ! 1)) = bottom (bounds t)" "top' (bounds (nodes t ! 1)) = verMidpoint t"
        "left (bounds (nodes t ! 2)) = left (bounds t)" "right (bounds (nodes t ! 2)) = horMidpoint t"
        "bottom (bounds (nodes t ! 2)) = verMidpoint t" "top' (bounds (nodes t ! 2)) = top' (bounds t)"
        "left (bounds (nodes t ! 3)) = horMidpoint t" "right (bounds (nodes t ! 3)) = right (bounds t)"
        "bottom (bounds (nodes t ! 3)) = verMidpoint t" "top' (bounds (nodes t ! 3)) = top' (bounds t)"
proof -
  have b: "bounds (nodes t ! k) = bounds (nodes (split (clear t)) ! k)" if "k < 4" for k
    using child_header(2) [OF assms that] by (metis clear_sel(4))
  show "left (bounds (nodes t ! 0)) = horMidpoint t" "right (bounds (nodes t ! 0)) = right (bounds t)"
        "bottom (bounds (nodes t ! 0)) = bottom (bounds t)" "top' (bounds (nodes t ! 0)) = verMidpoint t"
        "left (bounds (nodes t ! 1)) = left (bounds t)" "right (bounds (nodes t ! 1)) = horMidpoint t"
        "bottom (bounds (nodes t ! 1)) = bottom (bounds t)" "top' (bounds (nodes t ! 1)) = verMidpoint t"
        "left (bounds (nodes t ! 2)) = left (bounds t)" "right (bounds (nodes t ! 2)) = horMidpoint t"
        "bottom (bounds (nodes t ! 2)) = verMidpoint t" "top' (bounds (nodes t ! 2)) = top' (bounds t)"
        "left (bounds (nodes t ! 3)) = horMidpoint t" "right (bounds (nodes t ! 3)) = right (bounds t)"
        "bottom (bounds (nodes t ! 3)) = verMidpoint t" "top' (bounds (nodes t ! 3)) = top' (bounds t)"
    by (simp_all add: b nodes_split_clear)
qed

lemma child_bounds_Suc0:
  assumes "map clear (nodes t) = nodes (split (clear t))"
  shows "left (bounds (nodes t ! Suc 0)) = left (bounds t)"
        "right (bounds (nodes t ! Suc 0)) = horMidpoint t"
        "bottom (bounds (nodes t ! Suc 0)) = bottom (bounds t)"
        "top' (bounds (nodes t ! Suc 0)) = verMidpoint t"
  using child_bounds(5-8) [OF assms] by simp_all

lemma four_cases: "k < 4 \<Longrightarrow> k = 0 \<or> k = 1 \<or> k = 2 \<or> k = (3::nat)"
  by arith

text \<open>A point inside the bounds of a node lies inside the bounds of the subnode of its index.\<close>

lemma in_rect_child:
  assumes sh: "map clear (nodes t) = nodes (split (clear t))"
    and p: "in_rect p (bounds t)"
  shows "in_rect p (bounds (nodes t ! nat (getIndexForPoint t p)))"
proof -
  have "getIndexForPoint t p =
       (if lon p > horMidpoint t then (if lat p > verMidpoint t then 3 else 0)
        else (if lat p > verMidpoint t then 2 else 1))"
    by (simp add: getIndexForPoint_def horMidpoint_def verMidpoint_def Let_def)
  then show ?thesis
    using p by (auto simp: in_rect_def child_bounds [OF sh] child_bounds_Suc0 [OF sh] split: if_splits)
qed

lemma hasIntersection_common_point:
  "in_rect p (bounds c) \<Longrightarrow> in_rect p r \<Longrightarrow> hasIntersection c r"
  by (auto simp: in_rect_def hasIntersection_def)

text \<open>With bounds that are not inverted, the bounds of a subnode lie within those of the node.\<close>

lemma contains_rect_child:
  assumes sh: "map clear (nodes t) = nodes (split (clear t))"
    and w: "width (bounds t) = right (bounds t) - left (bounds t)"
           "height (bounds t) = top' (bounds t) - bottom (bounds t)"
    and nn: "0 \<le> width (bounds t)" "0 \<le> height (bounds t)"
    and r: "contains_rect r (bounds t)" and k: "k < 4"
  shows "contains_rect r (bounds (nodes t ! k))"
proof -
  have m: "left (bounds t) \<le> horMidpoint t" "horMidpoint t \<le> right (bounds t)"
    "bottom (bounds t) \<le> verMidpoint t" "verMidpoint t \<le> top' (bounds t)"
    using w nn by (simp_all add: horMidpoint_def verMidpoint_def field_simps)
  show ?thesis
    using four_cases [OF k] r m
    by (auto simp: contains_rect_def child_bounds [OF sh] child_bounds_Suc0 [OF sh])
qed

section \<open>retrieve on a tree that satisfies the invariant\<close>

declare retrieve.simps [simp del]

lemma getIndexForRect_loop_eq:
  "\<forall>i \<in> set is. i < length (nodes t) \<Longrightarrow>
   getIndexForRect_loop t r is acc = Inr (acc @ filter (\<lambda>i. hasIntersection (nodes t ! i) r) is)"
  by (induction "is" arbitrary: acc) (simp_all add: node_at_def)

lemma getIndexForRect_eq:
  "length (nodes t) = 4 \<Longrightarrow>
   getIndexForRect t r =
     Inr (if contains_rect r (bounds t) then [0, 1, 2, 3]
          else filter (\<lambda>i. hasIntersection (nodes t ! i) r) [0, 1, 2, 3])"
  unfolding getIndexForRect_def
  by (subst getIndexForRect_loop_eq) (auto simp: contains_rect_def ALL_NODES_def)

lemma retrieve_loop_eq:
  "\<forall>i \<in> set is. i < length (nodes t) \<and> retrieve (nodes t ! i) r = Inr (f i) \<Longrightarrow>
   retrieve_loop t r is acc = Inr (acc @ concat (map f is))"
  by (induction "is" arbitrary: acc) (simp_all add: node_at_def)

lemma retrieve_leaf: "nodes t = [] \<Longrightarrow> retrieve t r = Inr (objects t)"
  by (simp add: retrieve.simps)

lemma retrieve_inner:
  assumes "length (nodes t) = 4"
    and "\<forall>i < 4. retrieve (nodes t ! i) r = Inr (f i)"
  shows "retrieve t r =
     Inr (objects t @ concat (map f
       (if contains_rect r (bounds t) then [0, 1, 2, 3]
        else filter (\<lambda>i. hasIntersection (nodes t ! i) r) [0, 1, 2, 3])))"
proof -
  let ?is = "if contains_rect r (bounds t) then [0, 1, 2, 3]
        else filter (\<lambda>i. hasIntersection (nodes t ! i) r) [0, 1, 2, 3]"
  have "\<forall>i \<in> set ?is. i < length (nodes t) \<and> retrieve (nodes t ! i) r = Inr (f i)"
    using assms by auto
  from retrieve_loop_eq [OF this, of "objects t"] assms(1) show ?thesis
    by (subst retrieve.simps) (simp only: getIndexForRect_eq [OF assms(1)] sum.case, auto)
qed

lemma all_points_four:
  "length (nodes t) = 4 \<Longrightarrow>
   all_points t = objects t @ concat (map (\<lambda>i. all_points (nodes t ! i)) [0, 1, 2, 3])"
proof -
  assume "length (nodes t) = 4"
  then obtain a b c d where "nodes t = [a, b, c, d]"
    by (auto simp: eval_nat_numeral length_Suc_conv)
  then show ?thesis by (simp add: all_points_sel [of t])
qed

lemma in_all_points_iff:
  "p \<in> set (all_points t) \<longleftrightarrow>
     p \<in> set (objects t) \<or> (\<exists>i < length (nodes t). p \<in> set (all_points (nodes t ! i)))"
proof -
  have "(\<exists>c \<in> set (nodes t). p \<in> set (all_points c)) \<longleftrightarrow>
        (\<exists>i < length (nodes t). p \<in> set (all_points (nodes t ! i)))"
    by (metis in_set_conv_nth)
  then show ?thesis by (simp add: all_points_sel [of t])
qed

lemma retrieve_inv:
  "tree_inv t \<Longrightarrow>
   \<exists>xs. retrieve t r = Inr xs \<and> set xs \<subseteq> set (all_points t)
      \<and> (\<forall>p \<in> set (all_points t). in_rect p (bounds t) \<longrightarrow> in_rect p r \<longrightarrow> p \<in> set xs)
      \<and> (contains_rect r (bounds t) \<longrightarrow> 0 \<le> width (bounds t) \<longrightarrow> 0 \<le> height (bounds t) \<longrightarrow>
           xs = all_points t)"
proof (induction t)
  case (Quadtree mo ml l b os ns)
  let ?t = "Quadtree mo ml l b os ns"
  show ?case
  proof (cases "ns = []")
    case True
    then show ?thesis by (simp add: retrieve_leaf)
  next
    case False
    with Quadtree.prems have os: "os = []"
      and sh: "map clear (nodes ?t) = nodes (split (clear ?t))"
      and ch: "\<forall>c \<in> set ns. tree_inv c"
      and loc: "\<forall>i < length ns. \<forall>p \<in> set (all_points (ns ! i)). getIndexForPoint ?t p = int i"
      and w: "width (bounds ?t) = right (bounds ?t) - left (bounds ?t)"
             "height (bounds ?t) = top' (bounds ?t) - bottom (bounds ?t)"
      by (auto simp: tree_inv_sel [of ?t])
    have len: "length ns = 4" using child_header(1) [OF sh, of 0] by simp
    define f where "f i = projr (retrieve (ns ! i) r)" for i
    have ih: "retrieve (ns ! i) r = Inr (f i) \<and> set (f i) \<subseteq> set (all_points (ns ! i))
      \<and> (\<forall>p \<in> set (all_points (ns ! i)). in_rect p (bounds (ns ! i)) \<longrightarrow> in_rect p r \<longrightarrow> p \<in> set (f i))
      \<and> (contains_rect r (bounds (ns ! i)) \<longrightarrow> 0 \<le> width (bounds (ns ! i)) \<longrightarrow>
            0 \<le> height (bounds (ns ! i)) \<longrightarrow> f i = all_points (ns ! i))"
      if "i < 4" for i
    proof -
      from that len have m: "ns ! i \<in> set ns" by simp
      from Quadtree.IH [OF m] ch m show ?thesis unfolding f_def by fastforce
    qed
    define idx where "idx = (if contains_rect r b then [0, 1, 2, 3]
        else filter (\<lambda>i. hasIntersection (ns ! i) r) [0, 1, 2, 3])"
    have mem_idx: "i \<in> set idx \<longleftrightarrow> i < 4 \<and> (contains_rect r b \<or> hasIntersection (ns ! i) r)" for i
    proof -
      have "i \<in> set [0, 1, 2, 3] \<longleftrightarrow> i < 4" using four_cases [of i] by auto
      then show ?thesis unfolding idx_def
        by (cases "contains_rect r b") (simp_all only: if_True if_False set_filter mem_Collect_eq, blast+)
    qed
    have r: "retrieve ?t r = Inr (concat (map f idx))"
      using retrieve_inner [of ?t r f] len ih os unfolding idx_def by simp
    have ap: "all_points ?t = concat (map (\<lambda>i. all_points (ns ! i)) [0, 1, 2, 3])"
      using all_points_four [of ?t] len os by simp
    have 1: "set (concat (map f idx)) \<subseteq> set (all_points ?t)"
    proof
      fix p assume "p \<in> set (concat (map f idx))"
      then obtain i where i: "i \<in> set idx" "p \<in> set (f i)" by auto
      then have i4: "i < 4" by (simp add: mem_idx)
      with ih [OF i4] i(2) have "p \<in> set (all_points (ns ! i))" by auto
      with i4 len show "p \<in> set (all_points ?t)" by (auto simp: in_all_points_iff [of p ?t])
    qed
    have 2: "p \<in> set (concat (map f idx))"
      if p: "p \<in> set (all_points ?t)" "in_rect p (bounds ?t)" "in_rect p r" for p
    proof -
      have "p \<in> set (objects ?t) \<or> (\<exists>i < length (nodes ?t). p \<in> set (all_points (nodes ?t ! i)))"
        using p(1) by (simp only: in_all_points_iff [of p ?t])
      then obtain i where "i < length ns" "p \<in> set (all_points (ns ! i))"
        using os by auto
      with len have i: "i < 4" "p \<in> set (all_points (ns ! i))" by simp_all
      with loc len have gi: "getIndexForPoint ?t p = int i" by simp
      from in_rect_child [OF sh p(2)] gi have pc: "in_rect p (bounds (ns ! i))" by simp
      from hasIntersection_common_point [OF pc p(3)] i(1)
      have "i \<in> set idx" by (simp add: mem_idx)
      moreover from ih [OF i(1)] i(2) pc p(3) have "p \<in> set (f i)" by blast
      ultimately show ?thesis by auto
    qed
    have 3: "concat (map f idx) = all_points ?t"
      if c: "contains_rect r (bounds ?t)" "0 \<le> width (bounds ?t)" "0 \<le> height (bounds ?t)"
    proof -
      have "f i = all_points (ns ! i)" if i: "i < 4" for i
      proof -
        have cr: "contains_rect r (bounds (ns ! i))"
          using contains_rect_child [OF sh w c(2,3) c(1) i] by simp
        have inv: "tree_inv (ns ! i)" using ch i len by simp
        have wc: "width (bounds (ns ! i)) = right (bounds (ns ! i)) - left (bounds (ns ! i))"
          "height (bounds (ns ! i)) = top' (bounds (ns ! i)) - bottom (bounds (ns ! i))"
          using inv by (simp_all add: tree_inv_sel [of "ns ! i"])
        have "left (bounds (ns ! i)) \<le> right (bounds (ns ! i))"
          "bottom (bounds (ns ! i)) \<le> top' (bounds (ns ! i))"
          using four_cases [OF i] w c(2,3) child_bounds [OF sh] child_bounds_Suc0 [OF sh]
          by (auto simp: horMidpoint_def verMidpoint_def field_simps)
        with wc have "0 \<le> width (bounds (ns ! i))" "0 \<le> height (bounds (ns ! i))" by simp_all
        with ih [OF i] cr show ?thesis by blast
      qed
      then have "map f [0, 1, 2, 3] = map (\<lambda>i. all_points (ns ! i)) [0, 1, 2, 3]" by simp
      with c(1) show ?thesis unfolding ap idx_def by simp
    qed
    show ?thesis
      using r 1 2 3 by (intro exI [of _ "concat (map f idx)"]) blast
  qed
qed

section \<open>Evaluation of concrete runs\<close>

lemmas eval_simps = insert_qt_inner insert_qt_leaf redistribute_step redistribute_done
  Quadtree_new_def js_or_def split_def horMidpoint_def verMidpoint_def getIndexForPoint_def
  set_objects_def set_node_def splice1_def node_at_def Let_def

lemmas retrieve_eval_simps = retrieve.simps getIndexForRect_def hasIntersection_def ALL_NODES_def
  node_at_def

lemma reachable_facts:
  assumes "levels_left (Quadtree_new b mo ml lv :: 'a Quadtree) \<le> fuel"
  shows "\<exists>t. inserts fuel (Quadtree_new b mo ml lv :: 'a Quadtree) ps = Inr t \<and> tree_inv t
     \<and> clear t = Quadtree_new b mo ml lv \<and> mset (all_points t) = mset ps"
  using inserts_inv [OF tree_inv_Quadtree_new assms, of ps]
  by (simp add: clear_Quadtree_new all_points_Quadtree_new)


lemma scenario_inserts: "inserts 4 scenario_root scenario_points = Inr scenario_tree"
  by (simp add: scenario_root_def scenario_points_def scenario_tree_def eval_simps)

lemma scenario_retrieve_small:
  "retrieve scenario_tree \<lparr>left = 0, right = 15, bottom = 0, top' = 15\<rparr>
     = Inr [\<lparr>lon = 10, lat = 10\<rparr>, \<lparr>lon = 20, lat = 20\<rparr>]"
  by (simp add: scenario_tree_def retrieve_eval_simps)

section \<open>Further facts about insert and the nodes of a tree\<close>

text \<open>A result of \<open>insert\<close> does not depend on the bound, once the bound suffices.\<close>

lemma fuel_mono:
  "\<forall>f' t'. fuel \<le> f' \<longrightarrow> insert_qt fuel t p = Inr t' \<longrightarrow> insert_qt f' t p = Inr t'"
  "\<forall>f' t'. fuel \<le> f' \<longrightarrow> redistribute fuel t i = Inr t' \<longrightarrow> redistribute f' t i = Inr t'"
proof (induction fuel t p and fuel t i rule: insert_qt_redistribute.induct)
  case (1 fuel t p)
  show ?case
  proof (intro allI impI)
    fix f' t' assume le: "fuel \<le> f'" and r: "insert_qt fuel t p = Inr t'"
    show "insert_qt f' t p = Inr t'"
    proof (cases "nodes t \<noteq> []")
      case True
      let ?k = "nat (getIndexForPoint t p)"
      from r True obtain f c c' where f: "fuel = Suc f"
        and c: "node_at t ?k = Some c"
        and c': "insert_qt f c p = Inr c'"
        and t': "t' = set_node t ?k c'"
        by (auto simp: insert_qt_inner split: nat.splits option.splits sum.splits)
      from le f obtain g where g: "f' = Suc g" "f \<le> g" by (cases f') auto
      from "1.IH"(1) [OF refl refl _ f c] True c' g(2)
      have "insert_qt g c p = Inr c'" by (auto simp: getIndexForPoint_not_minus1)
      then show ?thesis using True g(1) c t' by (simp add: insert_qt_inner)
    next
      case False
      then have leaf: "nodes t = []" by simp
      show ?thesis
      proof (cases "max_objects t < int (length (objects t)) + 1 \<and> level t < max_levels t")
        case True
        with r leaf have "redistribute fuel (split (set_objects t (objects t @ [p]))) 0 = Inr t'"
          by (simp add: insert_qt_leaf)
        with "1.IH"(2) [OF refl refl _ refl] leaf True le
        have "redistribute f' (split (set_objects t (objects t @ [p]))) 0 = Inr t'" by simp
        then show ?thesis using leaf True by (simp add: insert_qt_leaf)
      next
        case F: False
        with r leaf show ?thesis by (auto simp: insert_qt_leaf)
      qed
    qed
  qed
next
  case (2 fuel t i)
  show ?case
  proof (intro allI impI)
    fix f' t' assume le: "fuel \<le> f'" and r: "redistribute fuel t i = Inr t'"
    show "redistribute f' t i = Inr t'"
    proof (cases "i < length (objects t)")
      case True
      let ?q = "objects t ! i"
      let ?k = "nat (getIndexForPoint t ?q)"
      let ?t2 = "\<lambda>c'. set_node (set_objects t (splice1 i (objects t))) ?k c'"
      from r True obtain f c c' where f: "fuel = Suc f"
        and c: "node_at t ?k = Some c"
        and c': "insert_qt f c ?q = Inr c'"
        and rr: "redistribute fuel (?t2 c') i = Inr t'"
        by (auto simp: redistribute_step split: nat.splits option.splits sum.splits)
      from le f obtain g where g: "f' = Suc g" "f \<le> g" by (cases f') auto
      from "2.IH"(1) [OF True refl getIndexForPoint_not_minus1 f c] c' g(2)
      have 1: "insert_qt g c ?q = Inr c'" by auto
      from "2.IH"(2) [OF True refl getIndexForPoint_not_minus1 f c c'] rr le
      have 2: "redistribute f' (?t2 c') i = Inr t'" by auto
      show ?thesis using True g(1) c 1 2 by (simp add: redistribute_step)
    next
      case False
      with r show ?thesis by (simp add: redistribute_done)
    qed
  qed
qed

lemma inserts_fuel_mono:
  "inserts fuel t ps = Inr t' \<Longrightarrow> fuel \<le> f' \<Longrightarrow> inserts f' t ps = Inr t'"
proof (induction ps arbitrary: t)
  case Nil
  then show ?case by simp
next
  case (Cons p ps)
  from Cons.prems(1) obtain t1 where t1: "insert_qt fuel t p = Inr t1" "inserts fuel t1 ps = Inr t'"
    by (auto split: sum.splits)
  from fuel_mono(1) [of fuel t p] t1(1) Cons.prems(2) have "insert_qt f' t p = Inr t1" by blast
  with Cons.IH [OF t1(2) Cons.prems(2)] show ?case by simp
qed

lemma scenario_inserts2: "inserts 2 scenario_root scenario_points = Inr scenario_tree"
  by (simp add: scenario_root_def scenario_points_def scenario_tree_def eval_simps)

lemma subtrees_sel: "subtrees t = t # concat (map subtrees (nodes t))"
  by (cases t) simp

lemma subtrees_inv: "tree_inv t \<Longrightarrow> n \<in> set (subtrees t) \<Longrightarrow> tree_inv n"
proof (induction t)
  case (Quadtree mo ml l b os ns)
  let ?t = "Quadtree mo ml l b os ns"
  from Quadtree.prems(2) consider "n = ?t" | c where "c \<in> set ns" "n \<in> set (subtrees c)"
    by auto
  then show ?case
  proof cases
    case 1
    then show ?thesis using Quadtree.prems(1) by simp
  next
    case 2
    with Quadtree.prems(1) have "tree_inv c" by (auto simp: tree_inv_sel [of ?t])
    with Quadtree.IH [OF 2(1) _ 2(2)] show ?thesis .
  qed
qed

lemma self_in_subtrees: "t \<in> set (subtrees t)"
  by (simp add: subtrees_sel [of t])

lemma scenario_needs_depth_two: "inserts 1 scenario_root scenario_points = Inl OutOfFuel"
  by (simp add: scenario_root_def scenario_points_def eval_simps)

lemma child_level:
  assumes "tree_inv n" "c \<in> set (nodes n)"
  shows "level c = level n + 1"
proof -
  from assms have ne: "nodes n \<noteq> []" by auto
  with assms(1) have sh: "map clear (nodes n) = nodes (split (clear n))"
    by (simp add: tree_inv_sel [of n])
  from assms(2) obtain k where k: "k < length (nodes n)" "c = nodes n ! k"
    by (auto simp: in_set_conv_nth)
  with child_header(1) [OF sh, of 0] have "k < 4" by simp
  from child_header(3) [OF sh this] k(2) show ?thesis by simp
qed

section \<open>The subnodes of split, and points that share their indices\<close>

lemma nodes_split:
  "length (nodes t) \<le> 4 \<Longrightarrow> nodes (split t) = nodes (split (clear t))"
  by (simp add: split_def Let_def horMidpoint_def verMidpoint_def)

lemma tree_inv_nodes_length: "tree_inv n \<Longrightarrow> length (nodes n) \<le> 4"
proof (cases "nodes n = []")
  case True
  then show ?thesis by simp
next
  case False
  assume "tree_inv n"
  with False have "map clear (nodes n) = nodes (split (clear n))"
    by (simp add: tree_inv_sel [of n])
  from child_header(1) [OF this, of 0] show ?thesis by simp
qed

lemma tree_inv_midpoints:
  assumes "tree_inv n"
  shows "horMidpoint n = left (bounds n) + (right (bounds n) - left (bounds n)) / 2"
    and "verMidpoint n = bottom (bounds n) + (top' (bounds n) - bottom (bounds n)) / 2"
  using assms by (simp_all add: tree_inv_sel [of n] horMidpoint_def verMidpoint_def)

lemma split_children:
  assumes inv: "tree_inv n"
  shows "length (nodes (split n)) = 4"
    and "\<forall>c \<in> set (nodes (split n)).
           level c = level n + 1 \<and> max_objects c = max_objects n \<and> max_levels c = max_levels n"
    and "map (\<lambda>c. rect.truncate (bounds c)) (nodes (split n)) =
          [\<lparr>left = horMidpoint n, right = right (bounds n),
            bottom = bottom (bounds n), top' = verMidpoint n\<rparr>,
           \<lparr>left = left (bounds n), right = horMidpoint n,
            bottom = bottom (bounds n), top' = verMidpoint n\<rparr>,
           \<lparr>left = left (bounds n), right = horMidpoint n,
            bottom = verMidpoint n, top' = top' (bounds n)\<rparr>,
           \<lparr>left = horMidpoint n, right = right (bounds n),
            bottom = verMidpoint n, top' = top' (bounds n)\<rparr>]"
proof -
  have s: "nodes (split n) = nodes (split (clear n))"
    using nodes_split [OF tree_inv_nodes_length [OF inv]] .
  from inv have m: "max_objects n \<noteq> 0" "max_levels n \<noteq> 0" by (simp_all add: tree_inv_sel [of n])
  show "length (nodes (split n)) = 4" by (simp add: s)
  show "\<forall>c \<in> set (nodes (split n)).
           level c = level n + 1 \<and> max_objects c = max_objects n \<and> max_levels c = max_levels n"
    using m by (simp add: s nodes_split_clear js_or_Some)
  show "map (\<lambda>c. rect.truncate (bounds c)) (nodes (split n)) =
          [\<lparr>left = horMidpoint n, right = right (bounds n),
            bottom = bottom (bounds n), top' = verMidpoint n\<rparr>,
           \<lparr>left = left (bounds n), right = horMidpoint n,
            bottom = bottom (bounds n), top' = verMidpoint n\<rparr>,
           \<lparr>left = left (bounds n), right = horMidpoint n,
            bottom = verMidpoint n, top' = top' (bounds n)\<rparr>,
           \<lparr>left = horMidpoint n, right = right (bounds n),
            bottom = verMidpoint n, top' = top' (bounds n)\<rparr>]"
    by (simp add: s nodes_split_clear Quadtree_new_def rect.truncate_def)
qed

lemma children_tile:
  assumes inv: "tree_inv n" and ne: "nodes n \<noteq> []"
  shows "map bounds (nodes n) = map bounds (nodes (split n))"
    and "in_rect p (bounds n) \<longleftrightarrow> (\<exists>c \<in> set (nodes n). in_rect p (bounds c))"
    and "\<forall>i < 4. \<forall>j < 4. i \<noteq> j \<longrightarrow>
           \<not> (in_interior p (bounds (nodes n ! i)) \<and> in_interior p (bounds (nodes n ! j)))"
proof -
  from inv ne have sh: "map clear (nodes n) = nodes (split (clear n))"
    and w: "width (bounds n) = right (bounds n) - left (bounds n)"
           "height (bounds n) = top' (bounds n) - bottom (bounds n)"
    by (simp_all add: tree_inv_sel [of n])
  have s: "nodes (split n) = nodes (split (clear n))"
    using nodes_split [OF tree_inv_nodes_length [OF inv]] .
  have "map bounds (map clear (nodes n)) = map bounds (nodes n)" by simp
  then show "map bounds (nodes n) = map bounds (nodes (split n))"
    unfolding s sh [symmetric] by simp
  note cb = child_bounds [OF sh] child_bounds_Suc0 [OF sh]
  have len: "length (nodes n) = 4" using child_header(1) [OF sh, of 0] by simp
  have mem: "(\<exists>c \<in> set (nodes n). P c) \<longleftrightarrow> (\<exists>k < 4. P (nodes n ! k))" for P
    using len by (metis in_set_conv_nth)
  show "in_rect p (bounds n) \<longleftrightarrow> (\<exists>c \<in> set (nodes n). in_rect p (bounds c))"
  proof
    assume p: "in_rect p (bounds n)"
    from in_rect_child [OF sh p] getIndexForPoint_nat(1) [of n p] show "\<exists>c \<in> set (nodes n). in_rect p (bounds c)"
      unfolding mem by blast
  next
    assume "\<exists>c \<in> set (nodes n). in_rect p (bounds c)"
    then obtain k where k: "k < 4" "in_rect p (bounds (nodes n ! k))" unfolding mem by blast
    from four_cases [OF k(1)] k(2) w show "in_rect p (bounds n)"
      by (elim disjE) (auto simp: in_rect_def cb horMidpoint_def verMidpoint_def field_simps)
  qed
  show "\<forall>i < 4. \<forall>j < 4. i \<noteq> j \<longrightarrow>
           \<not> (in_interior p (bounds (nodes n ! i)) \<and> in_interior p (bounds (nodes n ! j)))"
  proof (intro allI impI)
    fix i j :: nat assume ij: "i < 4" "j < 4" "i \<noteq> j"
    from four_cases [OF ij(1)] four_cases [OF ij(2)] ij(3)
    show "\<not> (in_interior p (bounds (nodes n ! i)) \<and> in_interior p (bounds (nodes n ! j)))"
      by (elim disjE) (auto simp: in_interior_def cb)
  qed
qed

declare descend.simps [simp del]

lemma inserts_append:
  "inserts fuel t (ps @ qs) =
     (case inserts fuel t ps of Inl e \<Rightarrow> Inl e | Inr t' \<Rightarrow> inserts fuel t' qs)"
  by (induction ps arbitrary: t) (auto split: sum.splits)

lemma inserts_snoc:
  "inserts fuel t ps = Inr t' \<Longrightarrow> inserts fuel t (ps @ [p]) = insert_qt fuel t' p"
  by (simp add: inserts_append split: sum.splits)

text \<open>A leaf at or beyond \<open>max_levels\<close> stays a leaf.\<close>

lemma inserts_at_max_level:
  "nodes t = [] \<Longrightarrow> max_levels t \<le> level t \<Longrightarrow>
   inserts fuel t ps = Inr (set_objects t (objects t @ ps))"
proof (induction ps arbitrary: t)
  case Nil
  then show ?case by (simp add: set_objects_id)
next
  case (Cons p ps)
  have "insert_qt fuel t p = Inr (set_objects t (objects t @ [p]))"
    using Cons.prems by (simp add: insert_qt_leaf)
  moreover have "inserts fuel (set_objects t (objects t @ [p])) ps
      = Inr (set_objects (set_objects t (objects t @ [p])) (objects t @ [p] @ ps))"
    using Cons.IH [of "set_objects t (objects t @ [p])"] Cons.prems by simp
  ultimately show ?case by (simp add: set_objects_twice)
qed

text \<open>
  The redistribution loop, when every object has the index \<open>k\<close>: the objects are
  inserted, in their order, into the subnode \<open>k\<close>.
\<close>

lemma set_node_same: "k < length (nodes t) \<Longrightarrow> set_node t k (nodes t ! k) = t"
  by (cases t) (simp add: set_node_def)

lemma set_node_twice: "set_node (set_node t k c) k c' = set_node t k c'"
  by (simp add: set_node_def)

lemma redistribute_same_index:
  "k < length (nodes t) \<Longrightarrow> \<forall>q \<in> set (objects t). nat (getIndexForPoint t q) = k \<Longrightarrow>
   inserts f (nodes t ! k) (objects t) = Inr c' \<Longrightarrow>
   redistribute (Suc f) t 0 = Inr (set_node (set_objects t []) k c')"
proof (induction "objects t" arbitrary: t)
  case Nil
  then have "c' = nodes t ! k" "objects t = []" by simp_all
  with Nil.prems(1) show ?case
    by (simp add: redistribute_done set_objects_id set_node_same)
next
  case (Cons q qs)
  from Cons.hyps(2) have os: "objects t = q # qs" by simp
  from Cons.prems(3) os obtain c1 where c1: "insert_qt f (nodes t ! k) q = Inr c1"
    "inserts f c1 qs = Inr c'"
    by (auto split: sum.splits)
  let ?t2 = "set_node (set_objects t qs) k c1"
  have k: "nat (getIndexForPoint t q) = k" using Cons.prems(2) os by simp
  have step: "redistribute (Suc f) t 0 = redistribute (Suc f) ?t2 0"
    using os k Cons.prems(1) c1(1)
    by (simp add: redistribute_step [of 0 t] node_at_def splice1_def)
  have "redistribute (Suc f) ?t2 0 = Inr (set_node (set_objects ?t2 []) k c')"
  proof (rule Cons.hyps(1))
    show "qs = objects ?t2" by simp
    show "k < length (nodes ?t2)" using Cons.prems(1) by simp
    show "\<forall>q \<in> set (objects ?t2). nat (getIndexForPoint ?t2 q) = k"
      using Cons.prems(2) os by (simp add: getIndexForPoint_bounds [of ?t2 t])
    show "inserts f (nodes ?t2 ! k) (objects ?t2) = Inr c'"
      using c1(2) Cons.prems(1) by simp
  qed
  also have "set_node (set_objects ?t2 []) k c' = set_node (set_objects t []) k c'"
    by (simp add: set_objects_set_node set_objects_twice set_node_twice)
  finally show ?case using step by simp
qed

lemma same_index_Suc:
  "ps \<noteq> [] \<Longrightarrow>
   same_index (Suc d) t ps \<longleftrightarrow>
     (\<forall>q \<in> set ps. getIndexForPoint t q = getIndexForPoint t (hd ps))
     \<and> same_index d (nodes (split (clear t)) ! nat (getIndexForPoint t (hd ps))) ps"
  by (cases ps) auto

lemma same_index_Nil [simp]: "same_index d t []"
  by (cases d) simp_all

lemma same_index_prefix: "same_index d t (ps @ qs) \<Longrightarrow> same_index d t ps"
proof (induction d arbitrary: t)
  case 0
  then show ?case by simp
next
  case (Suc d)
  show ?case
  proof (cases "ps = []")
    case True
    then show ?thesis by simp
  next
    case False
    then have hd: "hd (ps @ qs) = hd ps" by simp
    from False have ne: "ps @ qs \<noteq> []" by simp
    from Suc.prems show ?thesis
      unfolding same_index_Suc [OF ne] same_index_Suc [OF False] hd
      using Suc.IH by auto
  qed
qed

lemma fresh_child:
  assumes "clear t = t" "max_objects t \<noteq> 0" "max_levels t \<noteq> 0" "k < 4"
  shows "clear (nodes (split t) ! k) = nodes (split t) ! k"
    and "max_objects (nodes (split t) ! k) = max_objects t"
    and "max_levels (nodes (split t) ! k) = max_levels t"
    and "level (nodes (split t) ! k) = level t + 1"
    and "k < length (nodes (split t))"
proof -
  from assms(1) have s: "nodes (split t) = nodes (split (clear t))" by simp
  from four_cases [OF assms(4)] assms(2,3)
  show "clear (nodes (split t) ! k) = nodes (split t) ! k"
    and "max_objects (nodes (split t) ! k) = max_objects t"
    and "max_levels (nodes (split t) ! k) = max_levels t"
    and "level (nodes (split t) ! k) = level t + 1"
    and "k < length (nodes (split t))"
    unfolding s nodes_split_clear
    by (auto simp: clear_Quadtree_new js_or_Some)
qed

lemma fresh_leaf: "clear t = t \<Longrightarrow> objects t = [] \<and> nodes t = []"
  by (metis clear_sel(5) clear_sel(6))

lemma split_set_objects_leaf:
  "nodes t = [] \<Longrightarrow> objects t = [] \<Longrightarrow> set_objects (split (set_objects t os)) [] = split t"
  by (cases t) (simp add: split_def set_objects_def Let_def horMidpoint_def verMidpoint_def)

lemma nodes_split_set_objects: "nodes (split (set_objects t os)) = nodes (split t)"
  by (simp add: split_def set_objects_def Let_def horMidpoint_def verMidpoint_def)

lemma inserts_chain:
  "clear t = t \<Longrightarrow> max_objects t \<noteq> 0 \<Longrightarrow> max_levels t \<noteq> 0 \<Longrightarrow> levels_left t = d \<Longrightarrow>
   d \<le> fuel \<Longrightarrow> same_index d t ps \<Longrightarrow>
   inserts fuel t ps =
     Inr (if max_objects t < int (length ps) \<and> ps \<noteq> [] then chain d t ps else set_objects t ps)"
proof (induction d arbitrary: t fuel ps)
  case 0
  from "0.prems"(1) have leaf: "objects t = []" "nodes t = []" using fresh_leaf by blast+
  from "0.prems"(4) have "max_levels t \<le> level t" by (simp add: levels_left_def)
  from inserts_at_max_level [OF leaf(2) this, of fuel ps] leaf(1) show ?case by simp
next
  case (Suc d)
  note fresh = Suc.prems(1-3)
  from fresh(1) have leaf: "objects t = []" "nodes t = []" using fresh_leaf by blast+
  from Suc.prems(4) have lv: "level t < max_levels t" by (simp add: levels_left_def)
  from Suc.prems(5) obtain f where f: "fuel = Suc f" "d \<le> f" by (cases fuel) auto
  let ?M = "max_objects t"
  let ?st = "\<lambda>ps. if ?M < int (length ps) \<and> ps \<noteq> [] then chain (Suc d) t ps else set_objects t ps"
  have child: "inserts f (nodes (split t) ! k) qs =
      Inr (if ?M < int (length qs) \<and> qs \<noteq> [] then chain d (nodes (split t) ! k) qs
           else set_objects (nodes (split t) ! k) qs)"
    if "k < 4" "same_index d (nodes (split t) ! k) qs" for k qs
  proof -
    note fc = fresh_child [OF fresh that(1)]
    have "levels_left (nodes (split t) ! k) = d"
      using Suc.prems(4) fc(3,4) by (simp add: levels_left_def)
    from Suc.IH [OF fc(1) _ _ this f(2) that(2)] fc(2,3) fresh(2,3) show ?thesis by simp
  qed
  from Suc.prems(6) show ?case
  proof (induction ps rule: rev_induct)
    case Nil
    then show ?case using leaf by (simp add: set_objects_id)
  next
    case (snoc p ps)
    let ?ps = "ps @ [p]"
    let ?i = "nat (getIndexForPoint t (hd ?ps))"
    let ?child = "nodes (split t) ! ?i"
    have ne: "?ps \<noteq> []" by simp
    from snoc.prems have si: "\<forall>q \<in> set ?ps. getIndexForPoint t q = getIndexForPoint t (hd ?ps)"
      and sc: "same_index d ?child ?ps"
      unfolding same_index_Suc [OF ne] using fresh(1) by simp_all
    have i4: "?i < 4" by (rule getIndexForPoint_nat(1))
    have prev: "inserts fuel t ps = Inr (?st ps)"
      using snoc.IH [OF same_index_prefix [OF snoc.prems]] .
    have step: "inserts fuel t ?ps = insert_qt fuel (?st ps) p"
      using inserts_snoc [OF prev] .
    have cnew: "inserts f ?child ?ps =
        Inr (if ?M < int (length ?ps) then chain d ?child ?ps else set_objects ?child ?ps)"
      using child [OF i4 sc] by simp
    show ?case
    proof (cases "?M < int (length ps) \<and> ps \<noteq> []")
      case True
      then have hd: "hd ?ps = hd ps" by simp
      have st: "?st ps = set_node (split t) ?i (chain d ?child ps)"
        using True by (simp add: Let_def hd)
      have cold: "inserts f ?child ps = Inr (chain d ?child ps)"
        using child [OF i4 same_index_prefix [OF sc]] True by simp
      from inserts_snoc [OF cold, of p] cnew True
      have ci: "insert_qt f (chain d ?child ps) p = Inr (chain d ?child ?ps)" by simp
      have ip: "nat (getIndexForPoint (set_node (split t) ?i (chain d ?child ps)) p) = ?i"
        using si by (simp add: getIndexForPoint_bounds [of "set_node (split t) ?i (chain d ?child ps)" t])
      have len: "?i < length (nodes (split t))" using fresh_child(5) [OF fresh i4] .
      from len have ne2: "nodes (split t) \<noteq> []" by auto
      have "insert_qt fuel (?st ps) p = Inr (set_node (split t) ?i (chain d ?child ?ps))"
        unfolding st
        using len ci ip f(1) ne2
        by (subst insert_qt_inner) (simp_all add: node_at_def set_node_twice)
      with step True show ?thesis by (simp add: Let_def)
    next
      case False
      then have st: "?st ps = set_objects t ps" by (simp only: if_False)
      show ?thesis
      proof (cases "?M < int (length ps) + 1")
        case True
        let ?t1 = "split (set_objects t ?ps)"
        have r1: "insert_qt fuel (set_objects t ps) p = redistribute fuel ?t1 0"
          using leaf lv True by (simp add: insert_qt_leaf set_objects_twice)
        have c: "inserts f (nodes ?t1 ! ?i) (objects ?t1) = Inr (chain d ?child ?ps)"
          using cnew True by (simp add: nodes_split_set_objects)
        have "redistribute (Suc f) ?t1 0 = Inr (set_node (set_objects ?t1 []) ?i (chain d ?child ?ps))"
        proof (rule redistribute_same_index [OF _ _ c])
          show "?i < length (nodes ?t1)"
            using fresh_child(5) [OF fresh i4] by (simp add: nodes_split_set_objects)
          show "\<forall>q \<in> set (objects ?t1). nat (getIndexForPoint ?t1 q) = ?i"
            using si by (simp add: getIndexForPoint_bounds [of ?t1 t])
        qed
        then have "insert_qt fuel (set_objects t ps) p = Inr (set_node (split t) ?i (chain d ?child ?ps))"
          using r1 f(1) leaf by (simp add: split_set_objects_leaf)
        with step st True show ?thesis by (simp add: Let_def)
      next
        case F: False
        have "insert_qt fuel (set_objects t ps) p = Inr (set_objects t ?ps)"
          using leaf F by (auto simp add: insert_qt_leaf set_objects_twice)
        with step st F show ?thesis by simp
      qed
    qed
  qed
qed

lemma depth_sel: "depth t = (if nodes t = [] then 0 else Suc (fold max (map depth (nodes t)) 0))"
  by (cases t) simp

lemma depth_fresh: "clear t = t \<Longrightarrow> depth t = 0"
  using fresh_leaf [of t] by (simp add: depth_sel [of t])

lemma depth_set_node:
  "depth (set_node t k c) =
     (if nodes t = [] then 0 else Suc (fold max (map depth ((nodes t)[k := c])) 0))"
  by (simp add: depth_sel [of "set_node t k c"])

lemma fresh_children_list:
  assumes "clear t = t" "max_objects t \<noteq> 0" "max_levels t \<noteq> 0"
  shows "\<exists>n0 n1 n2 n3. nodes (split t) = [n0, n1, n2, n3]
           \<and> clear n0 = n0 \<and> clear n1 = n1 \<and> clear n2 = n2 \<and> clear n3 = n3"
proof -
  from assms(1) have s: "nodes (split t) = nodes (split (clear t))" by simp
  show ?thesis unfolding s nodes_split_clear by (simp add: clear_Quadtree_new)
qed

lemma chain_props:
  "clear t = t \<Longrightarrow> max_objects t \<noteq> 0 \<Longrightarrow> max_levels t \<noteq> 0 \<Longrightarrow>
   ps \<noteq> [] \<Longrightarrow>
   depth (chain d t ps) = d
   \<and> nodes (descend (chain d t ps) (hd ps)) = []
   \<and> objects (descend (chain d t ps) (hd ps)) = ps
   \<and> level (descend (chain d t ps) (hd ps)) = level t + int d"
proof (induction d arbitrary: t)
  case 0
  from fresh_leaf [OF "0.prems"(1)] show ?case
    by (simp add: depth_sel [of "set_objects t ps"] descend.simps [of "set_objects t ps"])
next
  case (Suc d)
  note fresh = Suc.prems(1-3)
  let ?i = "nat (getIndexForPoint t (hd ps))"
  let ?child = "nodes (split t) ! ?i"
  let ?sub = "chain d ?child ps"
  let ?t' = "set_node (split t) ?i ?sub"
  have i4: "?i < 4" by (rule getIndexForPoint_nat(1))
  note fc = fresh_child [OF fresh i4]
  from Suc.IH [OF fc(1) _ _ Suc.prems(4)] fc(2,3) fresh(2,3)
  have ih: "depth ?sub = d" "nodes (descend ?sub (hd ps)) = []" "objects (descend ?sub (hd ps)) = ps"
    "level (descend ?sub (hd ps)) = level ?child + int d"
    by simp_all
  from fresh_children_list [OF fresh] obtain n0 n1 n2 n3 where
    ns: "nodes (split t) = [n0, n1, n2, n3]" "clear n0 = n0" "clear n1 = n1" "clear n2 = n2" "clear n3 = n3"
    by blast
  have d0: "depth n0 = 0" "depth n1 = 0" "depth n2 = 0" "depth n3 = 0"
    using ns(2-5) by (simp_all add: depth_fresh)
  have "depth ?t' = Suc d"
    using four_cases [OF i4] ih(1) d0
    by (elim disjE) (simp_all add: depth_set_node ns(1))
  moreover have "descend ?t' (hd ps) = descend ?sub (hd ps)"
  proof -
    have ne: "nodes ?t' \<noteq> []" using fc(5) by auto
    have ix: "nat (getIndexForPoint ?t' (hd ps)) = ?i"
      by (simp add: getIndexForPoint_bounds [of ?t' t])
    have na: "node_at ?t' ?i = Some ?sub" using fc(5) by (simp add: node_at_def)
    show ?thesis by (subst descend.simps) (simp only: ne ix na if_False option.case)
  qed
  ultimately show ?case using ih fc(4) by (simp add: Let_def)
qed

lemma crowd_inserts: "inserts 2 crowd_root crowd_points = Inr crowd_tree"
  by (simp add: crowd_root_def crowd_points_def crowd_tree_def eval_simps)



lemma fold_max_le:
  "(\<forall>x \<in> set xs. x \<le> (m::nat)) \<Longrightarrow> a \<le> m \<Longrightarrow> fold max xs a \<le> m"
  by (induction xs arbitrary: a) auto

lemma depth_le_levels_left: "tree_inv t \<Longrightarrow> depth t \<le> levels_left t"
proof (induction t)
  case (Quadtree mo ml l b os ns)
  let ?t = "Quadtree mo ml l b os ns"
  show ?case
  proof (cases "ns = []")
    case True
    then show ?thesis by simp
  next
    case False
    then have ne: "nodes ?t \<noteq> []" by simp
    from Quadtree.prems False have "objects ?t = []" by (auto simp: tree_inv_sel [of ?t])
    with Quadtree.prems have inv0: "tree_inv (set_objects ?t [])"
      by (simp only: set_objects_id)
    have "depth c \<le> levels_left ?t - 1" if c: "c \<in> set ns" for c
    proof -
      from c obtain k where k: "k < length ns" "c = ns ! k" by (auto simp: in_set_conv_nth)
      from Quadtree.prems False have "map clear (nodes ?t) = nodes (split (clear ?t))"
        by (auto simp: tree_inv_sel [of ?t])
      from child_header(1) [OF this, of 0] k(1) have k4: "k < 4" by simp
      from tree_inv_child(2,3) [OF inv0 ne k4] k(2)
      have "tree_inv c" "Suc (levels_left c) = levels_left ?t" by simp_all
      with Quadtree.IH [OF c] show ?thesis by simp
    qed
    then have "fold max (map depth ns) 0 \<le> levels_left ?t - 1"
      by (intro fold_max_le) auto
    moreover have "0 < levels_left ?t"
      using Quadtree.prems False by (auto simp: tree_inv_sel [of ?t] levels_left_def)
    ultimately show ?thesis using False by simp
  qed
qed

section \<open>insert returns on every tree\<close>

lemma budget_sel:
  "budget t =
     (if nodes t = []
      then (if level t < max_levels t
            then Suc (nat (js_or (Some (max_levels t)) 4 - (level t + 1))) else 0)
      else Suc (fold max (map budget (nodes t)) 0))"
  by (cases t) simp

declare budget.simps [simp del]

lemma le_fold_max: "x \<in> set xs \<Longrightarrow> x \<le> fold max xs (a::nat)"
proof (induction xs arbitrary: a)
  case Nil
  then show ?case by simp
next
  case (Cons y ys)
  have mono: "b \<le> fold max ys b" for b :: nat
    by (induction ys arbitrary: b) (auto intro: order_trans [OF max.cobounded2])
  from Cons show ?case
    by (auto intro: order_trans [OF max.cobounded1 mono])
qed

lemma fold_max_update_le:
  assumes "k < length xs" "y \<le> xs ! k"
  shows "fold max (xs[k := y]) (0::nat) \<le> fold max xs 0"
proof (rule fold_max_le)
  show "\<forall>x \<in> set (xs[k := y]). x \<le> fold max xs 0"
  proof
    fix x assume "x \<in> set (xs[k := y])"
    then have "x = y \<or> x \<in> set xs" using set_update_subset_insert [of xs k y] by auto
    then show "x \<le> fold max xs 0"
    proof
      assume "x = y"
      with assms have "x \<le> xs ! k" by simp
      also have "xs ! k \<le> fold max xs 0" using assms(1) by (intro le_fold_max) simp
      finally show ?thesis .
    next
      assume "x \<in> set xs"
      then show ?thesis by (rule le_fold_max)
    qed
  qed
qed simp

lemma budget_child: "k < length (nodes t) \<Longrightarrow> budget (nodes t ! k) < budget t"
proof -
  assume k: "k < length (nodes t)"
  then have "budget (nodes t ! k) \<in> set (map budget (nodes t))" by simp
  from le_fold_max [OF this, of 0] k show ?thesis by (auto simp: budget_sel [of t])
qed

lemma budget_set_node:
  "k < length (nodes t) \<Longrightarrow> budget c' \<le> budget (nodes t ! k) \<Longrightarrow>
   budget (set_objects (set_node t k c') os) \<le> budget t"
  using fold_max_update_le [of k "map budget (nodes t)" "budget c'"]
  by (auto simp: budget_sel [of t] budget_sel [of "set_objects (set_node t k c') os"] map_update)

lemma budget_fresh: "budget (Quadtree_new b mo ml lv) = nat (js_or ml 4 - js_or lv 0)"
proof -
  have "js_or (Some (js_or ml 4)) 4 = js_or ml 4" by (simp add: js_or_def split: option.splits)
  then show ?thesis by (auto simp: budget_sel [of "Quadtree_new b mo ml lv"])
qed

lemma budget_split:
  "nodes t = [] \<Longrightarrow> level t < max_levels t \<Longrightarrow> budget (split t) = budget t"
proof -
  assume leaf: "nodes t = []" and lv: "level t < max_levels t"
  have s: "nodes (split t) = nodes (split (clear t))" using nodes_split [of t] leaf by simp
  have "fold max (map budget (nodes (split t))) 0
          = nat (js_or (Some (max_levels t)) 4 - (level t + 1))"
    unfolding s nodes_split_clear by (simp add: budget_fresh)
  moreover have "nodes (split t) \<noteq> []" unfolding s by (simp add: nodes_split_clear)
  ultimately show ?thesis using leaf lv
    by (simp add: budget_sel [of t] budget_sel [of "split t"])
qed

lemma budget_set_objects [simp]: "budget (set_objects t os) = budget t"
  by (simp add: budget_sel [of t] budget_sel [of "set_objects t os"])

lemma budget_set_node': 
  "k < length (nodes t) \<Longrightarrow> budget c' \<le> budget (nodes t ! k) \<Longrightarrow>
   budget (set_node t k c') \<le> budget t"
  using budget_set_node [of k t c' "objects t"] by (simp add: set_objects_id)

lemma budget_pos: "nodes t \<noteq> [] \<Longrightarrow> 0 < budget t"
  by (simp add: budget_sel [of t])

lemma never_out_of_fuel:
  "budget t \<le> fuel \<longrightarrow>
     insert_qt fuel t p \<noteq> Inl OutOfFuel
     \<and> (\<forall>t'. insert_qt fuel t p = Inr t' \<longrightarrow> budget t' \<le> budget t)"
  "nodes t \<noteq> [] \<longrightarrow> budget t \<le> fuel \<longrightarrow>
     redistribute fuel t i \<noteq> Inl OutOfFuel
     \<and> (\<forall>t'. redistribute fuel t i = Inr t' \<longrightarrow> budget t' \<le> budget t)"
proof (induction fuel t p and fuel t i rule: insert_qt_redistribute.induct)
  case (1 fuel t p)
  show ?case
  proof (intro impI)
    assume b: "budget t \<le> fuel"
    show "insert_qt fuel t p \<noteq> Inl OutOfFuel
      \<and> (\<forall>t'. insert_qt fuel t p = Inr t' \<longrightarrow> budget t' \<le> budget t)"
    proof (cases "nodes t \<noteq> []")
      case True
      let ?k = "nat (getIndexForPoint t p)"
      from budget_pos [OF True] b obtain f where f: "fuel = Suc f" by (cases fuel) auto
      show ?thesis
      proof (cases "node_at t ?k")
        case None
        then show ?thesis using True f by (simp add: insert_qt_inner)
      next
        case (Some c)
        then have k: "?k < length (nodes t)" "c = nodes t ! ?k" by (simp_all add: node_at_Some)
        from budget_child [OF k(1)] b f k(2) have bc: "budget c \<le> f" by simp
        from "1.IH"(1) [OF refl refl _ f Some] True bc
        have ih: "insert_qt f c p \<noteq> Inl OutOfFuel"
          "\<forall>c'. insert_qt f c p = Inr c' \<longrightarrow> budget c' \<le> budget c"
          by (auto simp: getIndexForPoint_not_minus1)
        show ?thesis
        proof (cases "insert_qt f c p")
          case (Inl e)
          with ih(1) True f Some show ?thesis by (simp add: insert_qt_inner)
        next
          case (Inr c')
          with ih(2) have "budget c' \<le> budget (nodes t ! ?k)" using k(2) by simp
          from budget_set_node' [OF k(1) this] Inr True f Some show ?thesis
            by (simp add: insert_qt_inner)
        qed
      qed
    next
      case False
      then have leaf: "nodes t = []" by simp
      let ?t1 = "set_objects t (objects t @ [p])"
      show ?thesis
      proof (cases "max_objects t < int (length (objects t)) + 1 \<and> level t < max_levels t")
        case True
        have ne: "nodes (split ?t1) \<noteq> []" by (simp add: split_def Let_def)
        have bs: "budget (split ?t1) = budget t"
          using budget_split [of ?t1] leaf True by simp
        from "1.IH"(2) [OF refl refl _ refl] leaf True ne bs b
        have "redistribute fuel (split ?t1) 0 \<noteq> Inl OutOfFuel
          \<and> (\<forall>t'. redistribute fuel (split ?t1) 0 = Inr t' \<longrightarrow> budget t' \<le> budget t)"
          by simp
        then show ?thesis using leaf True by (simp add: insert_qt_leaf)
      next
        case F: False
        have "insert_qt fuel t p = Inr ?t1" using leaf F by (auto simp: insert_qt_leaf)
        then show ?thesis by simp
      qed
    qed
  qed
next
  case (2 fuel t i)
  show ?case
  proof (intro impI)
    assume ne: "nodes t \<noteq> []" and b: "budget t \<le> fuel"
    show "redistribute fuel t i \<noteq> Inl OutOfFuel
      \<and> (\<forall>t'. redistribute fuel t i = Inr t' \<longrightarrow> budget t' \<le> budget t)"
    proof (cases "i < length (objects t)")
      case True
      let ?q = "objects t ! i"
      let ?k = "nat (getIndexForPoint t ?q)"
      let ?t2 = "\<lambda>c'. set_node (set_objects t (splice1 i (objects t))) ?k c'"
      from budget_pos [OF ne] b obtain f where f: "fuel = Suc f" by (cases fuel) auto
      show ?thesis
      proof (cases "node_at t ?k")
        case None
        then show ?thesis using True f by (simp add: redistribute_step)
      next
        case (Some c)
        then have k: "?k < length (nodes t)" "c = nodes t ! ?k" by (simp_all add: node_at_Some)
        from budget_child [OF k(1)] b f k(2) have bc: "budget c \<le> f" by simp
        from "2.IH"(1) [OF True refl getIndexForPoint_not_minus1 f Some] bc
        have ih: "insert_qt f c ?q \<noteq> Inl OutOfFuel"
          "\<forall>c'. insert_qt f c ?q = Inr c' \<longrightarrow> budget c' \<le> budget c"
          by auto
        show ?thesis
        proof (cases "insert_qt f c ?q")
          case (Inl e)
          with ih(1) True f Some show ?thesis by (simp add: redistribute_step)
        next
          case (Inr c')
          with ih(2) have "budget c' \<le> budget (nodes t ! ?k)" using k(2) by simp
          from budget_set_node [OF k(1) this, of "splice1 i (objects t)"]
          have b2: "budget (?t2 c') \<le> budget t" by (simp add: set_objects_set_node)
          have ne2: "nodes (?t2 c') \<noteq> []" using ne by simp
          from "2.IH"(2) [OF True refl getIndexForPoint_not_minus1 f Some Inr] ne2 b2 b
          have "redistribute fuel (?t2 c') i \<noteq> Inl OutOfFuel
            \<and> (\<forall>t'. redistribute fuel (?t2 c') i = Inr t' \<longrightarrow> budget t' \<le> budget (?t2 c'))"
            by simp
          with b2 Inr True f Some show ?thesis
            by (auto simp: redistribute_step)
        qed
      qed
    next
      case False
      then show ?thesis by (simp add: redistribute_done)
    qed
  qed
qed

section \<open>The claims\<close>

subsection \<open>C1: retrieve returns a superset of the points inside the rectangle\<close>

text \<open>
  Claim C1 says that every inserted point inside the query rectangle \<open>R\<close> occurs in
  \<open>retrieve(R)\<close>. That fails for a point outside the bounds of the root:
  \<open>insert\<close> sorts it into the subnode of its index all the same, and \<open>retrieve\<close>
  finds no subnode that meets a rectangle around the point. With bounds 0..100
  and \<open>max_objects = 1\<close>, inserting (200, 200) and (10, 10) splits the root, and
  \<open>retrieve\<close> on the rectangle 150..250 returns nothing.
\<close>

theorem retrieve_misses_point_outside_root:
  "inserts 4
     (Quadtree_new \<lparr>left = 0, right = 100, bottom = 0, top' = 100\<rparr> (Some 1) None None
        :: unit Quadtree)
     [\<lparr>lon = 200, lat = 200\<rparr>, \<lparr>lon = 10, lat = 10\<rparr>]
   = Inr (Quadtree 1 4 0
       \<lparr>left = 0, right = 100, bottom = 0, top' = 100, width = 100, height = 100\<rparr> []
       [Quadtree 1 4 1
          \<lparr>left = 50, right = 100, bottom = 0, top' = 50, width = 50, height = 50\<rparr> [] [],
        Quadtree 1 4 1
          \<lparr>left = 0, right = 50, bottom = 0, top' = 50, width = 50, height = 50\<rparr>
          [\<lparr>lon = 10, lat = 10\<rparr>] [],
        Quadtree 1 4 1
          \<lparr>left = 0, right = 50, bottom = 50, top' = 100, width = 50, height = 50\<rparr> [] [],
        Quadtree 1 4 1
          \<lparr>left = 50, right = 100, bottom = 50, top' = 100, width = 50, height = 50\<rparr>
          [\<lparr>lon = 200, lat = 200\<rparr>] []])
   \<and> retrieve
       (Quadtree 1 4 0
         \<lparr>left = 0, right = 100, bottom = 0, top' = 100, width = 100, height = 100\<rparr> []
         [Quadtree 1 4 1
            \<lparr>left = 50, right = 100, bottom = 0, top' = 50, width = 50, height = 50\<rparr> [] [],
          Quadtree 1 4 1
            \<lparr>left = 0, right = 50, bottom = 0, top' = 50, width = 50, height = 50\<rparr>
            [\<lparr>lon = 10, lat = 10\<rparr>] [],
          Quadtree 1 4 1
            \<lparr>left = 0, right = 50, bottom = 50, top' = 100, width = 50, height = 50\<rparr> [] [],
          Quadtree 1 4 1
            \<lparr>left = 50, right = 100, bottom = 50, top' = 100, width = 50, height = 50\<rparr>
            [\<lparr>lon = 200, lat = 200\<rparr>] []])
       \<lparr>left = 150, right = 250, bottom = 150, top' = 250\<rparr>
     = Inr []
   \<and> in_rect \<lparr>lon = 200, lat = 200\<rparr> \<lparr>left = 150, right = 250, bottom = 150, top' = 250\<rparr>"
  by (simp add: eval_simps retrieve_eval_simps in_rect_def)

text \<open>
  Claim C1 as amended. For every tree obtained from a constructed root by a
  sequence of \<open>insert\<close> calls and every query rectangle \<open>R\<close>, \<open>retrieve(R)\<close>
  returns (without an error) a sequence that contains every inserted point that
  lies inside the bounds of the root and inside \<open>R\<close>; the sequence consists of
  inserted points and may contain points that are not inside \<open>R\<close>, as the
  scenario shows for the rectangle 0..15 and the point (20, 20). The recursion
  depth allowed to \<open>insert\<close> is any number of at least \<open>max_levels - level\<close> of the
  root.
\<close>

theorem retrieve_superset:
  assumes "levels_left (Quadtree_new b mo ml lv :: 'a Quadtree) \<le> fuel"
  shows "(\<exists>t. inserts fuel (Quadtree_new b mo ml lv :: 'a Quadtree) ps = Inr t
          \<and> (\<forall>r. \<exists>xs. retrieve t r = Inr xs \<and> set xs \<subseteq> set ps
                \<and> (\<forall>p \<in> set ps. in_rect p (bounds t) \<longrightarrow> in_rect p r \<longrightarrow> p \<in> set xs)))
     \<and> (\<exists>t xs. inserts 4 scenario_root scenario_points = Inr t
          \<and> retrieve t \<lparr>left = 0, right = 15, bottom = 0, top' = 15\<rparr> = Inr xs
          \<and> \<lparr>lon = 20, lat = 20\<rparr> \<in> set xs
          \<and> \<not> in_rect \<lparr>lon = 20, lat = 20\<rparr> \<lparr>left = 0, right = 15, bottom = 0, top' = 15\<rparr>)"
proof
  from reachable_facts [OF assms, of ps]
  obtain t where t: "inserts fuel (Quadtree_new b mo ml lv :: 'a Quadtree) ps = Inr t"
    "tree_inv t" "mset (all_points t) = mset ps" by blast
  from t(3) have s: "set (all_points t) = set ps" by (metis set_mset_mset)
  have "\<exists>xs. retrieve t r = Inr xs \<and> set xs \<subseteq> set ps
          \<and> (\<forall>p \<in> set ps. in_rect p (bounds t) \<longrightarrow> in_rect p r \<longrightarrow> p \<in> set xs)" for r
    using retrieve_inv [OF t(2), of r] unfolding s by blast
  with t(1) show "\<exists>t. inserts fuel (Quadtree_new b mo ml lv :: 'a Quadtree) ps = Inr t
          \<and> (\<forall>r. \<exists>xs. retrieve t r = Inr xs \<and> set xs \<subseteq> set ps
                \<and> (\<forall>p \<in> set ps. in_rect p (bounds t) \<longrightarrow> in_rect p r \<longrightarrow> p \<in> set xs))"
    by blast
next
  show "\<exists>t xs. inserts 4 scenario_root scenario_points = Inr t
          \<and> retrieve t \<lparr>left = 0, right = 15, bottom = 0, top' = 15\<rparr> = Inr xs
          \<and> \<lparr>lon = 20, lat = 20\<rparr> \<in> set xs
          \<and> \<not> in_rect \<lparr>lon = 20, lat = 20\<rparr> \<lparr>left = 0, right = 15, bottom = 0, top' = 15\<rparr>"
    using scenario_inserts scenario_retrieve_small by (simp add: in_rect_def)
qed

theorem retrieve_superset_witness:
  "levels_left scenario_root \<le> 4
   \<and> (\<exists>xs. retrieve scenario_tree \<lparr>left = 0, right = 15, bottom = 0, top' = 15\<rparr> = Inr xs
        \<and> \<lparr>lon = 10, lat = 10\<rparr> \<in> set xs)"
proof -
  have h: "levels_left (Quadtree_new \<lparr>left = 0, right = 100, bottom = 0, top' = 100\<rparr>
             (Some 2) (Some 4) None :: unit Quadtree) \<le> 4"
    by (simp add: levels_left_def js_or_def)
  from conjunct1 [OF retrieve_superset [OF h, of scenario_points]] scenario_inserts
  have "\<forall>r. \<exists>xs. retrieve scenario_tree r = Inr xs \<and> set xs \<subseteq> set scenario_points
          \<and> (\<forall>p \<in> set scenario_points. in_rect p (bounds scenario_tree) \<longrightarrow> in_rect p r
                \<longrightarrow> p \<in> set xs)"
    by (simp add: scenario_root_def)
  then obtain xs where
    "retrieve scenario_tree \<lparr>left = 0, right = 15, bottom = 0, top' = 15\<rparr> = Inr xs"
    "\<forall>p \<in> set scenario_points. in_rect p (bounds scenario_tree) \<longrightarrow>
       in_rect p \<lparr>left = 0, right = 15, bottom = 0, top' = 15\<rparr> \<longrightarrow> p \<in> set xs"
    by blast
  moreover have "\<lparr>lon = 10, lat = 10\<rparr> \<in> set scenario_points"
    "in_rect \<lparr>lon = 10, lat = 10\<rparr> (bounds scenario_tree)"
    "in_rect \<lparr>lon = 10, lat = 10\<rparr> \<lparr>left = 0, right = 15, bottom = 0, top' = 15\<rparr>"
    by (simp_all add: scenario_points_def scenario_tree_def in_rect_def)
  ultimately show ?thesis using h by (auto simp: scenario_root_def)
qed

subsection \<open>C2: a rectangle that contains the bounds of the root retrieves everything\<close>





subsection \<open>C3: the scenario\<close>

text \<open>
  Claim C3. From a freshly constructed tree with bounds
  \<open>{left: 0, right: 100, bottom: 0, top: 100}\<close>, \<open>max_objects = 2\<close> and
  \<open>max_levels = 4\<close>, inserting (10, 10), (20, 20), (30, 30) in that order leaves
  the root split, with no objects of its own and the three points in the subtree
  of the subnode of index 1; then \<open>retrieve\<close> on \<open>{left: 0, right: 50, bottom: 0, top: 50}\<close>
  returns exactly the three points, and on \<open>{left: 60, right: 100, bottom: 60, top: 100}\<close>
  the empty sequence. The run needs a recursion of depth two.
\<close>

theorem scenario_three_points:
  assumes "2 \<le> fuel"
  shows "inserts fuel scenario_root scenario_points = Inr scenario_tree
   \<and> nodes scenario_tree \<noteq> [] \<and> objects scenario_tree = []
   \<and> all_points (nodes scenario_tree ! 1) = scenario_points
   \<and> all_points (nodes scenario_tree ! 0) = []
   \<and> all_points (nodes scenario_tree ! 2) = []
   \<and> all_points (nodes scenario_tree ! 3) = []
   \<and> retrieve scenario_tree \<lparr>left = 0, right = 50, bottom = 0, top' = 50\<rparr> = Inr scenario_points
   \<and> retrieve scenario_tree \<lparr>left = 60, right = 100, bottom = 60, top' = 100\<rparr> = Inr []"
proof -
  have "inserts fuel scenario_root scenario_points = Inr scenario_tree"
    using inserts_fuel_mono [OF scenario_inserts2 assms] .
  moreover have "nodes scenario_tree \<noteq> [] \<and> objects scenario_tree = []
   \<and> all_points (nodes scenario_tree ! 1) = scenario_points
   \<and> all_points (nodes scenario_tree ! 0) = []
   \<and> all_points (nodes scenario_tree ! 2) = []
   \<and> all_points (nodes scenario_tree ! 3) = []"
    by (simp add: scenario_tree_def scenario_points_def)
  moreover have "retrieve scenario_tree \<lparr>left = 0, right = 50, bottom = 0, top' = 50\<rparr>
      = Inr scenario_points"
    by (simp add: scenario_tree_def scenario_points_def retrieve_eval_simps)
  moreover have "retrieve scenario_tree \<lparr>left = 60, right = 100, bottom = 60, top' = 100\<rparr> = Inr []"
    by (simp add: scenario_tree_def retrieve_eval_simps)
  ultimately show ?thesis by blast
qed

theorem scenario_three_points_witness:
  "(2::nat) \<le> 4 \<and> inserts 4 scenario_root scenario_points = Inr scenario_tree
   \<and> retrieve scenario_tree \<lparr>left = 0, right = 50, bottom = 0, top' = 50\<rparr> = Inr scenario_points
   \<and> retrieve scenario_tree \<lparr>left = 60, right = 100, bottom = 60, top' = 100\<rparr> = Inr []"
proof -
  have h: "(2::nat) \<le> 4" by simp
  from scenario_three_points [OF h] h show ?thesis by blast
qed

subsection \<open>C4: the depth cap\<close>

text \<open>
  Claim C4. A leaf whose level equals \<open>max_levels\<close> never splits: every point
  inserted into it is appended to its \<open>objects\<close>. In every tree built by the
  constructor and \<open>insert\<close> a node whose level equals \<open>max_levels\<close> is a leaf, and
  the depth of the tree is at most \<open>max_levels - level\<close> of the root. And inserting
  more than \<open>max_objects\<close> points (at least one) that have the same index at every
  level into a freshly constructed tree gives a tree whose depth below the root
  is exactly \<open>max_levels - level\<close> of the root (\<open>max_levels\<close> for a root of level
  0), and the leaf at that depth on the path of the points holds all the points,
  in the order of their insertion.
\<close>

theorem depth_cap:
  "(\<forall>(t :: 'a Quadtree) qs g. nodes t = [] \<longrightarrow> level t = max_levels t \<longrightarrow>
       inserts g t qs = Inr (set_objects t (objects t @ qs)))
   \<and> (levels_left (Quadtree_new b mo ml lv :: 'a Quadtree) \<le> fuel \<longrightarrow>
        (\<exists>t. inserts fuel (Quadtree_new b mo ml lv :: 'a Quadtree) qs' = Inr t
           \<and> depth t \<le> nat (max_levels t - level t)
           \<and> (\<forall>n \<in> set (subtrees t). level n = max_levels n \<longrightarrow> nodes n = [])))
   \<and> (levels_left (Quadtree_new b mo ml lv :: 'a Quadtree) \<le> fuel \<longrightarrow>
        max_objects (Quadtree_new b mo ml lv :: 'a Quadtree) < int (length ps) \<longrightarrow>
        ps \<noteq> [] \<longrightarrow>
        same_index (levels_left (Quadtree_new b mo ml lv :: 'a Quadtree))
          (Quadtree_new b mo ml lv :: 'a Quadtree) ps \<longrightarrow>
        (\<exists>t. inserts fuel (Quadtree_new b mo ml lv :: 'a Quadtree) ps = Inr t
           \<and> depth t = nat (max_levels t - level t)
           \<and> nodes (descend t (hd ps)) = []
           \<and> objects (descend t (hd ps)) = ps
           \<and> level (descend t (hd ps)) = level t + int (depth t)))"
proof (intro conjI allI impI)
  fix t :: "'a Quadtree" and qs g
  assume "nodes t = []" "level t = max_levels t"
  then show "inserts g t qs = Inr (set_objects t (objects t @ qs))"
    by (simp add: inserts_at_max_level)
next
  assume a: "levels_left (Quadtree_new b mo ml lv :: 'a Quadtree) \<le> fuel"
  from reachable_facts [OF a, of qs']
  obtain t where t: "inserts fuel (Quadtree_new b mo ml lv :: 'a Quadtree) qs' = Inr t"
    "tree_inv t" by blast
  have "nodes n = []" if "n \<in> set (subtrees t)" "level n = max_levels n" for n
    using subtrees_inv [OF t(2) that(1)] that(2) by (auto simp: tree_inv_sel [of n])
  with t(1) depth_le_levels_left [OF t(2)]
  show "\<exists>t. inserts fuel (Quadtree_new b mo ml lv :: 'a Quadtree) qs' = Inr t
           \<and> depth t \<le> nat (max_levels t - level t)
           \<and> (\<forall>n \<in> set (subtrees t). level n = max_levels n \<longrightarrow> nodes n = [])"
    by (auto simp: levels_left_def)
next
  let ?r = "Quadtree_new b mo ml lv :: 'a Quadtree"
  assume a: "levels_left ?r \<le> fuel" "max_objects ?r < int (length ps)" "ps \<noteq> []"
    "same_index (levels_left ?r) ?r ps"
  have fresh: "clear ?r = ?r" "max_objects ?r \<noteq> 0" "max_levels ?r \<noteq> 0"
    by (simp_all add: clear_Quadtree_new js_or_def split: option.splits)
  from inserts_chain [OF fresh refl a(1) a(4)] a(2,3)
  have r: "inserts fuel ?r ps = Inr (chain (levels_left ?r) ?r ps)" by simp
  have h: "max_levels (chain (levels_left ?r) ?r ps) = max_levels ?r"
    "level (chain (levels_left ?r) ?r ps) = level ?r"
    by (cases "levels_left ?r"; simp add: Let_def)+
  from chain_props [OF fresh a(3), of "levels_left ?r"] r h
  show "\<exists>t. inserts fuel ?r ps = Inr t
           \<and> depth t = nat (max_levels t - level t)
           \<and> nodes (descend t (hd ps)) = []
           \<and> objects (descend t (hd ps)) = ps
           \<and> level (descend t (hd ps)) = level t + int (depth t)"
    by (simp add: levels_left_def)
qed

theorem depth_cap_witness:
  "levels_left crowd_root \<le> 2
   \<and> max_objects crowd_root < int (length crowd_points)
   \<and> crowd_points \<noteq> []
   \<and> same_index (levels_left crowd_root) crowd_root crowd_points
   \<and> inserts 2 crowd_root crowd_points = Inr crowd_tree
   \<and> depth crowd_tree = 2
   \<and> descend crowd_tree (hd crowd_points) = crowd_leaf
   \<and> nodes crowd_leaf = []
   \<and> objects crowd_leaf = crowd_points
   \<and> level crowd_leaf = 2
   \<and> level crowd_leaf = max_levels crowd_leaf
   \<and> inserts 0 crowd_leaf [\<lparr>lon = 5, lat = 5\<rparr>]
       = Inr (set_objects crowd_leaf (crowd_points @ [\<lparr>lon = 5, lat = 5\<rparr>]))"
proof -
  let ?b = "\<lparr>left = 0, right = 100, bottom = 0, top' = 100\<rparr>"
  let ?r = "Quadtree_new ?b (Some 2) (Some 2) None :: unit Quadtree"
  have ll: "levels_left ?r = 2" by (simp add: levels_left_def js_or_def)
  have h1: "levels_left ?r \<le> 2" using ll by simp
  have h2: "max_objects ?r < int (length crowd_points)"
    by (simp add: crowd_points_def js_or_def)
  have h3: "crowd_points \<noteq> []" by (simp add: crowd_points_def)
  have h4: "same_index (levels_left ?r) ?r crowd_points"
    unfolding ll
    by (simp add: eval_nat_numeral crowd_points_def Quadtree_new_def js_or_def split_def Let_def
          horMidpoint_def verMidpoint_def getIndexForPoint_def)
  note inst = depth_cap [of ?b "Some 2" "Some 2" None 2 "[]" crowd_points]
  from conjunct2 [OF conjunct2 [OF inst]] h1 h2 h3 h4
  obtain t where t: "inserts 2 ?r crowd_points = Inr t"
    "depth t = nat (max_levels t - level t)"
    "nodes (descend t (hd crowd_points)) = []"
    "objects (descend t (hd crowd_points)) = crowd_points"
    "level (descend t (hd crowd_points)) = level t + int (depth t)"
    by blast
  from t(1) crowd_inserts have eq: "t = crowd_tree" by (simp add: crowd_root_def)
  have lv: "max_levels crowd_tree = 2" "level crowd_tree = 0" by (simp_all add: crowd_tree_def)
  from t(2) have d: "depth crowd_tree = 2" unfolding eq lv by simp
  have dl: "descend crowd_tree (hd crowd_points) = crowd_leaf"
    by (simp add: crowd_tree_def crowd_points_def crowd_leaf_def descend.simps node_at_def
          getIndexForPoint_def Let_def)
  from t(3-5) d have l: "nodes crowd_leaf = []" "objects crowd_leaf = crowd_points"
    "level crowd_leaf = 2"
    unfolding eq lv dl by simp_all
  have lm: "level crowd_leaf = max_levels crowd_leaf" by (simp add: crowd_leaf_def)
  from conjunct1 [OF inst] l(1) lm
  have "inserts 0 crowd_leaf [\<lparr>lon = 5, lat = 5\<rparr>]
       = Inr (set_objects crowd_leaf (objects crowd_leaf @ [\<lparr>lon = 5, lat = 5\<rparr>]))"
    by blast
  with h1 h2 h3 h4 crowd_inserts d dl l lm show ?thesis by (simp add: crowd_root_def)
qed

subsection \<open>C5: a split node holds no objects\<close>

text \<open>
  Claim C5. When a call of \<open>insert\<close> splits a leaf, the redistribution moves every
  point of the node's \<open>objects\<close> into a subnode, and the list is empty when
  \<open>insert\<close> returns. So in every tree built by the constructor and \<open>insert\<close>,
  every node with subnodes has an empty \<open>objects\<close> list.
\<close>

theorem split_node_holds_no_objects:
  "(\<forall>t p fuel' t'. nodes t = [] \<longrightarrow> insert_qt fuel' (t :: 'a Quadtree) p = Inr t' \<longrightarrow> nodes t' \<noteq> [] \<longrightarrow>
      objects t' = []
      \<and> mset (concat (map all_points (nodes t'))) = mset (objects t) + {#p#})
   \<and> (levels_left (Quadtree_new b mo ml lv :: 'a Quadtree) \<le> fuel \<longrightarrow>
       (\<exists>t. inserts fuel (Quadtree_new b mo ml lv :: 'a Quadtree) ps = Inr t
          \<and> (\<forall>n \<in> set (subtrees t). nodes n \<noteq> [] \<longrightarrow> objects n = [])))"
proof (intro conjI allI impI)
  fix t :: "'a Quadtree" and p fuel' t'
  assume leaf: "nodes t = []" and r: "insert_qt fuel' t p = Inr t'" and ne: "nodes t' \<noteq> []"
  let ?t1 = "set_objects t (objects t @ [p])"
  have rr: "redistribute fuel' (split ?t1) 0 = Inr t'"
  proof (cases "max_objects t < int (length (objects t)) + 1 \<and> level t < max_levels t")
    case True
    with r leaf show ?thesis by (simp add: insert_qt_leaf)
  next
    case False
    with r leaf have "t' = ?t1" by (auto simp: insert_qt_leaf)
    with ne leaf show ?thesis by simp
  qed
  from frame(2) [of fuel' "split ?t1" 0] rr
  show "objects t' = []" by simp
  from frame(1) [of fuel' t p] r
  have "mset (all_points t') = mset (all_points t) + {#p#}" by simp
  with \<open>objects t' = []\<close> leaf
  show "mset (concat (map all_points (nodes t'))) = mset (objects t) + {#p#}"
    by (simp add: all_points_sel [of t] all_points_sel [of t'])
next
  assume a: "levels_left (Quadtree_new b mo ml lv :: 'a Quadtree) \<le> fuel"
  from reachable_facts [OF a, of ps]
  obtain t where t: "inserts fuel (Quadtree_new b mo ml lv :: 'a Quadtree) ps = Inr t"
    "tree_inv t" by blast
  have "objects n = []" if "n \<in> set (subtrees t)" "nodes n \<noteq> []" for n
    using subtrees_inv [OF t(2) that(1)] that(2) by (simp add: tree_inv_sel [of n])
  with t(1) show "\<exists>t. inserts fuel (Quadtree_new b mo ml lv :: 'a Quadtree) ps = Inr t
          \<and> (\<forall>n \<in> set (subtrees t). nodes n \<noteq> [] \<longrightarrow> objects n = [])"
    by blast
qed

theorem split_node_holds_no_objects_witness:
  "nodes (set_objects scenario_root [\<lparr>lon = 10, lat = 10\<rparr>, \<lparr>lon = 20, lat = 20\<rparr>]) = []
   \<and> insert_qt 4 (set_objects scenario_root [\<lparr>lon = 10, lat = 10\<rparr>, \<lparr>lon = 20, lat = 20\<rparr>])
        \<lparr>lon = 30, lat = 30\<rparr> = Inr scenario_tree
   \<and> nodes scenario_tree \<noteq> []
   \<and> objects scenario_tree = []
   \<and> levels_left scenario_root \<le> 4
   \<and> nodes scenario_tree ! 1 \<in> set (subtrees scenario_tree)
   \<and> nodes (nodes scenario_tree ! 1) \<noteq> []
   \<and> objects (nodes scenario_tree ! 1) = []"
proof -
  let ?t2 = "set_objects scenario_root [\<lparr>lon = 10, lat = 10\<rparr>, \<lparr>lon = 20, lat = 20\<rparr>]"
  let ?p = "\<lparr>lon = 30, lat = 30\<rparr>"
  have a: "nodes ?t2 = []" by (simp add: scenario_root_def)
  have b: "insert_qt 4 ?t2 ?p = Inr scenario_tree"
    by (simp add: scenario_root_def scenario_tree_def eval_simps)
  have c: "nodes scenario_tree \<noteq> []" by (simp add: scenario_tree_def)
  have h: "levels_left (Quadtree_new \<lparr>left = 0, right = 100, bottom = 0, top' = 100\<rparr>
             (Some 2) (Some 4) None :: unit Quadtree) \<le> 4"
    by (simp add: levels_left_def js_or_def)
  have d: "nodes scenario_tree ! 1 \<in> set (subtrees scenario_tree)"
    "nodes (nodes scenario_tree ! 1) \<noteq> []"
    by (simp_all add: scenario_tree_def)
  note inst = split_node_holds_no_objects
    [of "\<lparr>left = 0, right = 100, bottom = 0, top' = 100\<rparr>" "Some 2" "Some 4" None 4 scenario_points]
  from conjunct1 [OF inst] a b c have e: "objects scenario_tree = []" by blast
  from conjunct2 [OF inst] h scenario_inserts
  have "\<forall>n \<in> set (subtrees scenario_tree). nodes n \<noteq> [] \<longrightarrow> objects n = []"
    by (simp add: scenario_root_def)
  with d have f: "objects (nodes scenario_tree ! 1) = []" by blast
  from a b c d e f h show ?thesis by (simp add: scenario_root_def)
qed

subsection \<open>C6: the four subnodes tile the node\<close>

text \<open>
  Claim C6. On every node of a tree built by the constructor and \<open>insert\<close>,
  \<open>split\<close> creates exactly four subnodes, each with the level of the node plus
  one and the node's \<open>max_objects\<close> and \<open>max_levels\<close>, with the bounds
  (\<open>horMidpoint\<close>, \<open>bottom\<close>, \<open>right\<close>, \<open>verMidpoint\<close>) at index 0,
  (\<open>left\<close>, \<open>bottom\<close>, \<open>horMidpoint\<close>, \<open>verMidpoint\<close>) at index 1,
  (\<open>left\<close>, \<open>verMidpoint\<close>, \<open>horMidpoint\<close>, \<open>top\<close>) at index 2 and
  (\<open>horMidpoint\<close>, \<open>verMidpoint\<close>, \<open>right\<close>, \<open>top\<close>) at index 3, where
  \<open>horMidpoint = left + width / 2\<close>, \<open>verMidpoint = bottom + height / 2\<close>,
  \<open>width = right - left\<close> and \<open>height = top - bottom\<close>. Every node with subnodes
  has subnodes with these bounds; a point lies in the node's rectangle exactly
  when it lies in the rectangle of one of the subnodes (no gap), and no point lies
  in the interior of two of them (no overlap of area).
\<close>

theorem split_children_tile:
  assumes "levels_left (Quadtree_new b mo ml lv :: 'a Quadtree) \<le> fuel"
  shows "\<exists>t. inserts fuel (Quadtree_new b mo ml lv :: 'a Quadtree) ps = Inr t
     \<and> (\<forall>n \<in> set (subtrees t).
          width (bounds n) = right (bounds n) - left (bounds n)
          \<and> height (bounds n) = top' (bounds n) - bottom (bounds n)
          \<and> horMidpoint n = left (bounds n) + width (bounds n) / 2
          \<and> verMidpoint n = bottom (bounds n) + height (bounds n) / 2
          \<and> length (nodes (split n)) = 4
          \<and> (\<forall>c \<in> set (nodes (split n)).
                level c = level n + 1 \<and> max_objects c = max_objects n
                \<and> max_levels c = max_levels n)
          \<and> map (\<lambda>c. rect.truncate (bounds c)) (nodes (split n)) =
               [\<lparr>left = horMidpoint n, right = right (bounds n),
                 bottom = bottom (bounds n), top' = verMidpoint n\<rparr>,
                \<lparr>left = left (bounds n), right = horMidpoint n,
                 bottom = bottom (bounds n), top' = verMidpoint n\<rparr>,
                \<lparr>left = left (bounds n), right = horMidpoint n,
                 bottom = verMidpoint n, top' = top' (bounds n)\<rparr>,
                \<lparr>left = horMidpoint n, right = right (bounds n),
                 bottom = verMidpoint n, top' = top' (bounds n)\<rparr>]
          \<and> (nodes n \<noteq> [] \<longrightarrow>
                map bounds (nodes n) = map bounds (nodes (split n))
                \<and> (\<forall>p :: point. in_rect p (bounds n) \<longleftrightarrow>
                       (\<exists>c \<in> set (nodes n). in_rect p (bounds c)))
                \<and> (\<forall>i < 4. \<forall>j < 4. i \<noteq> j \<longrightarrow>
                       (\<forall>p :: point. \<not> (in_interior p (bounds (nodes n ! i))
                                          \<and> in_interior p (bounds (nodes n ! j)))))))"
proof -
  from reachable_facts [OF assms, of ps]
  obtain t where t: "inserts fuel (Quadtree_new b mo ml lv :: 'a Quadtree) ps = Inr t"
    "tree_inv t" by blast
  have "width (bounds n) = right (bounds n) - left (bounds n)
          \<and> height (bounds n) = top' (bounds n) - bottom (bounds n)
          \<and> horMidpoint n = left (bounds n) + width (bounds n) / 2
          \<and> verMidpoint n = bottom (bounds n) + height (bounds n) / 2
          \<and> length (nodes (split n)) = 4
          \<and> (\<forall>c \<in> set (nodes (split n)).
                level c = level n + 1 \<and> max_objects c = max_objects n
                \<and> max_levels c = max_levels n)
          \<and> map (\<lambda>c. rect.truncate (bounds c)) (nodes (split n)) =
               [\<lparr>left = horMidpoint n, right = right (bounds n),
                 bottom = bottom (bounds n), top' = verMidpoint n\<rparr>,
                \<lparr>left = left (bounds n), right = horMidpoint n,
                 bottom = bottom (bounds n), top' = verMidpoint n\<rparr>,
                \<lparr>left = left (bounds n), right = horMidpoint n,
                 bottom = verMidpoint n, top' = top' (bounds n)\<rparr>,
                \<lparr>left = horMidpoint n, right = right (bounds n),
                 bottom = verMidpoint n, top' = top' (bounds n)\<rparr>]
          \<and> (nodes n \<noteq> [] \<longrightarrow>
                map bounds (nodes n) = map bounds (nodes (split n))
                \<and> (\<forall>p :: point. in_rect p (bounds n) \<longleftrightarrow>
                       (\<exists>c \<in> set (nodes n). in_rect p (bounds c)))
                \<and> (\<forall>i < 4. \<forall>j < 4. i \<noteq> j \<longrightarrow>
                       (\<forall>p :: point. \<not> (in_interior p (bounds (nodes n ! i))
                                          \<and> in_interior p (bounds (nodes n ! j))))))"
    if n: "n \<in> set (subtrees t)" for n
  proof -
    have inv: "tree_inv n" using subtrees_inv [OF t(2) n] .
    have w: "width (bounds n) = right (bounds n) - left (bounds n)"
      "height (bounds n) = top' (bounds n) - bottom (bounds n)"
      using inv by (simp_all add: tree_inv_sel [of n])
    have m: "horMidpoint n = left (bounds n) + width (bounds n) / 2"
      "verMidpoint n = bottom (bounds n) + height (bounds n) / 2"
      by (simp_all add: horMidpoint_def verMidpoint_def)
    note sc = split_children [OF inv]
    have tile: "map bounds (nodes n) = map bounds (nodes (split n))
                \<and> (\<forall>p :: point. in_rect p (bounds n) \<longleftrightarrow>
                       (\<exists>c \<in> set (nodes n). in_rect p (bounds c)))
                \<and> (\<forall>i < 4. \<forall>j < 4. i \<noteq> j \<longrightarrow>
                       (\<forall>p :: point. \<not> (in_interior p (bounds (nodes n ! i))
                                          \<and> in_interior p (bounds (nodes n ! j)))))"
      if ne: "nodes n \<noteq> []"
      using children_tile [OF inv ne] by blast
    from w m sc tile show ?thesis by blast
  qed
  with t(1) show ?thesis by blast
qed

theorem split_children_tile_witness:
  "levels_left scenario_root \<le> 4
   \<and> scenario_tree \<in> set (subtrees scenario_tree)
   \<and> nodes scenario_tree \<noteq> []
   \<and> length (nodes (split scenario_tree)) = 4
   \<and> map (\<lambda>c. rect.truncate (bounds c)) (nodes (split scenario_tree)) =
        [\<lparr>left = 50, right = 100, bottom = 0, top' = 50\<rparr>,
         \<lparr>left = 0, right = 50, bottom = 0, top' = 50\<rparr>,
         \<lparr>left = 0, right = 50, bottom = 50, top' = 100\<rparr>,
         \<lparr>left = 50, right = 100, bottom = 50, top' = 100\<rparr>]
   \<and> map bounds (nodes scenario_tree) = map bounds (nodes (split scenario_tree))
   \<and> (in_rect \<lparr>lon = 30, lat = 70\<rparr> (bounds scenario_tree) \<longleftrightarrow>
        (\<exists>c \<in> set (nodes scenario_tree). in_rect \<lparr>lon = 30, lat = 70\<rparr> (bounds c)))"
proof -
  have h: "levels_left (Quadtree_new \<lparr>left = 0, right = 100, bottom = 0, top' = 100\<rparr>
             (Some 2) (Some 4) None :: unit Quadtree) \<le> 4"
    by (simp add: levels_left_def js_or_def)
  have d: "scenario_tree \<in> set (subtrees scenario_tree)" "nodes scenario_tree \<noteq> []"
    by (simp_all add: scenario_tree_def)
  have hv: "horMidpoint scenario_tree = 50" "verMidpoint scenario_tree = 50"
    "left (bounds scenario_tree) = 0" "right (bounds scenario_tree) = 100"
    "bottom (bounds scenario_tree) = 0" "top' (bounds scenario_tree) = 100"
    by (simp_all add: scenario_tree_def horMidpoint_def verMidpoint_def)
  from split_children_tile [OF h, of scenario_points]
  obtain t where t: "inserts 4 (Quadtree_new \<lparr>left = 0, right = 100, bottom = 0, top' = 100\<rparr>
             (Some 2) (Some 4) None :: unit Quadtree) scenario_points = Inr t"
    and all: "\<forall>n \<in> set (subtrees t).
          width (bounds n) = right (bounds n) - left (bounds n)
          \<and> height (bounds n) = top' (bounds n) - bottom (bounds n)
          \<and> horMidpoint n = left (bounds n) + width (bounds n) / 2
          \<and> verMidpoint n = bottom (bounds n) + height (bounds n) / 2
          \<and> length (nodes (split n)) = 4
          \<and> (\<forall>c \<in> set (nodes (split n)).
                level c = level n + 1 \<and> max_objects c = max_objects n
                \<and> max_levels c = max_levels n)
          \<and> map (\<lambda>c. rect.truncate (bounds c)) (nodes (split n)) =
               [\<lparr>left = horMidpoint n, right = right (bounds n),
                 bottom = bottom (bounds n), top' = verMidpoint n\<rparr>,
                \<lparr>left = left (bounds n), right = horMidpoint n,
                 bottom = bottom (bounds n), top' = verMidpoint n\<rparr>,
                \<lparr>left = left (bounds n), right = horMidpoint n,
                 bottom = verMidpoint n, top' = top' (bounds n)\<rparr>,
                \<lparr>left = horMidpoint n, right = right (bounds n),
                 bottom = verMidpoint n, top' = top' (bounds n)\<rparr>]
          \<and> (nodes n \<noteq> [] \<longrightarrow>
                map bounds (nodes n) = map bounds (nodes (split n))
                \<and> (\<forall>p :: point. in_rect p (bounds n) \<longleftrightarrow>
                       (\<exists>c \<in> set (nodes n). in_rect p (bounds c)))
                \<and> (\<forall>i < 4. \<forall>j < 4. i \<noteq> j \<longrightarrow>
                       (\<forall>p :: point. \<not> (in_interior p (bounds (nodes n ! i))
                                          \<and> in_interior p (bounds (nodes n ! j))))))"
    by blast
  from t scenario_inserts have "t = scenario_tree" by (simp add: scenario_root_def)
  with all d(1) have n: "length (nodes (split scenario_tree)) = 4
          \<and> map (\<lambda>c. rect.truncate (bounds c)) (nodes (split scenario_tree)) =
               [\<lparr>left = horMidpoint scenario_tree, right = right (bounds scenario_tree),
                 bottom = bottom (bounds scenario_tree), top' = verMidpoint scenario_tree\<rparr>,
                \<lparr>left = left (bounds scenario_tree), right = horMidpoint scenario_tree,
                 bottom = bottom (bounds scenario_tree), top' = verMidpoint scenario_tree\<rparr>,
                \<lparr>left = left (bounds scenario_tree), right = horMidpoint scenario_tree,
                 bottom = verMidpoint scenario_tree, top' = top' (bounds scenario_tree)\<rparr>,
                \<lparr>left = horMidpoint scenario_tree, right = right (bounds scenario_tree),
                 bottom = verMidpoint scenario_tree, top' = top' (bounds scenario_tree)\<rparr>]
          \<and> (nodes scenario_tree \<noteq> [] \<longrightarrow>
                map bounds (nodes scenario_tree) = map bounds (nodes (split scenario_tree))
                \<and> (\<forall>p :: point. in_rect p (bounds scenario_tree) \<longleftrightarrow>
                       (\<exists>c \<in> set (nodes scenario_tree). in_rect p (bounds c))))"
    by blast
  with d(2) have
    "map bounds (nodes scenario_tree) = map bounds (nodes (split scenario_tree))"
    "in_rect \<lparr>lon = 30, lat = 70\<rparr> (bounds scenario_tree) \<longleftrightarrow>
        (\<exists>c \<in> set (nodes scenario_tree). in_rect \<lparr>lon = 30, lat = 70\<rparr> (bounds c))"
    by blast+
  with n h d show ?thesis unfolding hv scenario_root_def by blast
qed

subsection \<open>C7: clear\<close>

text \<open>
  Claim C7. After \<open>clear()\<close> on the root of a tree built by the constructor and
  \<open>insert\<close>, \<open>retrieve\<close> returns the empty sequence for every rectangle, the
  bounds, level, \<open>max_objects\<close> and \<open>max_levels\<close> of the root are unchanged, the
  root has no subnodes, and the tree is equal to a freshly constructed one with
  the same bounds and parameters, so every later sequence of \<open>insert\<close> calls has
  the same result on both.
\<close>

theorem clear_gives_fresh_tree:
  assumes "levels_left (Quadtree_new b mo ml lv :: 'a Quadtree) \<le> fuel"
  shows "\<exists>t. inserts fuel (Quadtree_new b mo ml lv :: 'a Quadtree) ps = Inr t
     \<and> (\<forall>r. retrieve (clear t) r = Inr [])
     \<and> bounds (clear t) = bounds t \<and> level (clear t) = level t
     \<and> max_objects (clear t) = max_objects t \<and> max_levels (clear t) = max_levels t
     \<and> nodes (clear t) = [] \<and> objects (clear t) = []
     \<and> clear t = Quadtree_new b mo ml lv
     \<and> clear t = Quadtree_new (rect.truncate (bounds t))
                    (Some (max_objects t)) (Some (max_levels t)) (Some (level t))
     \<and> (\<forall>g qs. inserts g (clear t) qs
            = inserts g (Quadtree_new (rect.truncate (bounds t))
                    (Some (max_objects t)) (Some (max_levels t)) (Some (level t))) qs)"
proof -
  from reachable_facts [OF assms, of ps]
  obtain t where t: "inserts fuel (Quadtree_new b mo ml lv :: 'a Quadtree) ps = Inr t"
    "tree_inv t" "clear t = (Quadtree_new b mo ml lv :: 'a Quadtree)" by blast
  have 1: "retrieve (clear t) r = Inr []" for r by (simp add: retrieve_leaf)
  from t(2) have m: "max_objects t \<noteq> 0" "max_levels t \<noteq> 0"
    "width (bounds t) = right (bounds t) - left (bounds t)"
    "height (bounds t) = top' (bounds t) - bottom (bounds t)"
    by (simp_all add: tree_inv_sel [of t])
  have 2: "clear t = Quadtree_new (rect.truncate (bounds t))
                    (Some (max_objects t)) (Some (max_levels t)) (Some (level t))"
    using m by (cases t) (simp add: Quadtree_new_def js_or_def rect.truncate_def)
  from 2 have 3: "inserts g (clear t) qs
            = inserts g (Quadtree_new (rect.truncate (bounds t))
                    (Some (max_objects t)) (Some (max_levels t)) (Some (level t))) qs" for g qs
    by simp
  have 4: "bounds (clear t) = bounds t \<and> level (clear t) = level t
     \<and> max_objects (clear t) = max_objects t \<and> max_levels (clear t) = max_levels t
     \<and> nodes (clear t) = [] \<and> objects (clear t) = []"
    by simp
  from t(1,3) 1 2 3 4 show ?thesis
    by (intro exI [of _ t]) blast
qed

theorem clear_gives_fresh_tree_witness:
  "levels_left scenario_root \<le> 4
   \<and> clear scenario_tree = scenario_root
   \<and> retrieve (clear scenario_tree) \<lparr>left = 0, right = 50, bottom = 0, top' = 50\<rparr> = Inr []
   \<and> inserts 4 (clear scenario_tree) scenario_points = Inr scenario_tree"
proof -
  have h: "levels_left (Quadtree_new \<lparr>left = 0, right = 100, bottom = 0, top' = 100\<rparr>
             (Some 2) (Some 4) None :: unit Quadtree) \<le> 4"
    by (simp add: levels_left_def js_or_def)
  from clear_gives_fresh_tree [OF h, of scenario_points]
  obtain t where t: "inserts 4 (Quadtree_new \<lparr>left = 0, right = 100, bottom = 0, top' = 100\<rparr>
             (Some 2) (Some 4) None :: unit Quadtree) scenario_points = Inr t"
    "\<forall>r. retrieve (clear t) r = Inr []"
    "clear t = Quadtree_new \<lparr>left = 0, right = 100, bottom = 0, top' = 100\<rparr>
             (Some 2) (Some 4) None"
    by blast
  from t(1) scenario_inserts have "t = scenario_tree" by (simp add: scenario_root_def)
  with t(2,3) have "retrieve (clear scenario_tree) \<lparr>left = 0, right = 50, bottom = 0, top' = 50\<rparr> = Inr []"
    "clear scenario_tree = scenario_root"
    by (simp_all only: scenario_root_def)
  with h scenario_inserts show ?thesis by (simp add: scenario_root_def)
qed

subsection \<open>C8: getIndexForPoint\<close>

text \<open>
  Claim C8. For every node and every point, \<open>getIndexForPoint\<close> returns an index
  among 0, 1, 2, 3: 3 when \<open>lon\<close> and \<open>lat\<close> are both above the midpoints, 0 when
  only \<open>lon\<close> is, 2 when only \<open>lat\<close> is, and 1 otherwise. On a node constructed
  with the bounds \<open>{left: 0, right: 10, bottom: 0, top: 10}\<close> the point (7, 8) has
  index 3, (2, 2) has index 1, (2, 8) has index 2 and (7, 2) has index 0.
\<close>

theorem getIndexForPoint_quadrant:
  "getIndexForPoint t p \<in> {0, 1, 2, 3}
   \<and> getIndexForPoint t p =
       (if lon p > horMidpoint t \<and> lat p > verMidpoint t then 3
        else if lon p > horMidpoint t \<and> lat p \<le> verMidpoint t then 0
        else if lon p \<le> horMidpoint t \<and> lat p > verMidpoint t then 2
        else 1)
   \<and> getIndexForPoint
         (Quadtree_new \<lparr>left = 0, right = 10, bottom = 0, top' = 10\<rparr> mo ml lv :: 'a Quadtree)
         \<lparr>lon = 7, lat = 8\<rparr> = 3
   \<and> getIndexForPoint
         (Quadtree_new \<lparr>left = 0, right = 10, bottom = 0, top' = 10\<rparr> mo ml lv :: 'a Quadtree)
         \<lparr>lon = 2, lat = 2\<rparr> = 1
   \<and> getIndexForPoint
         (Quadtree_new \<lparr>left = 0, right = 10, bottom = 0, top' = 10\<rparr> mo ml lv :: 'a Quadtree)
         \<lparr>lon = 2, lat = 8\<rparr> = 2
   \<and> getIndexForPoint
         (Quadtree_new \<lparr>left = 0, right = 10, bottom = 0, top' = 10\<rparr> mo ml lv :: 'a Quadtree)
         \<lparr>lon = 7, lat = 2\<rparr> = 0"
  by (simp add: getIndexForPoint_def horMidpoint_def verMidpoint_def Let_def)

theorem getIndexForPoint_quadrant_witness:
  "getIndexForPoint
     (Quadtree_new \<lparr>left = 0, right = 100, bottom = 0, top' = 100\<rparr> (Some 2) (Some 4) None
        :: unit Quadtree)
     \<lparr>lon = 30, lat = 70\<rparr> = 2"
proof -
  let ?t = "Quadtree_new \<lparr>left = 0, right = 100, bottom = 0, top' = 100\<rparr> (Some 2) (Some 4) None
              :: unit Quadtree"
  let ?p = "\<lparr>lon = 30, lat = 70\<rparr>"
  have "\<not> lon ?p > horMidpoint ?t" "lat ?p > verMidpoint ?t"
    by (simp_all add: horMidpoint_def verMidpoint_def)
  moreover have "getIndexForPoint ?t ?p =
       (if lon ?p > horMidpoint ?t \<and> lat ?p > verMidpoint ?t then 3
        else if lon ?p > horMidpoint ?t \<and> lat ?p \<le> verMidpoint ?t then 0
        else if lon ?p \<le> horMidpoint ?t \<and> lat ?p > verMidpoint ?t then 2
        else 1)"
    by (rule conjunct1 [OF conjunct2 [OF getIndexForPoint_quadrant]])
  ultimately show ?thesis
    by (simp add: not_less)
qed

subsection \<open>C9: the constructor's defaults\<close>

text \<open>
  Claim C9. In the constructor a supplied 0 for \<open>max_objects\<close>, \<open>max_levels\<close> or
  \<open>level\<close> is treated the same as no value: the node gets \<open>max_objects = 10\<close>,
  \<open>max_levels = 4\<close>, \<open>level = 0\<close>. So no constructed node has \<open>max_objects = 0\<close> or
  \<open>max_levels = 0\<close>. A negative value is stored as given.
\<close>

theorem Quadtree_new_defaults:
  "max_objects (Quadtree_new b (Some 0) ml lv :: 'a Quadtree) = 10
   \<and> max_objects (Quadtree_new b None ml lv :: 'a Quadtree) = 10
   \<and> max_levels (Quadtree_new b mo (Some 0) lv :: 'a Quadtree) = 4
   \<and> max_levels (Quadtree_new b mo None lv :: 'a Quadtree) = 4
   \<and> level (Quadtree_new b mo ml (Some 0) :: 'a Quadtree) = 0
   \<and> level (Quadtree_new b mo ml None :: 'a Quadtree) = 0
   \<and> max_objects (Quadtree_new b mo ml lv :: 'a Quadtree) \<noteq> 0
   \<and> max_levels (Quadtree_new b mo ml lv :: 'a Quadtree) \<noteq> 0
   \<and> (v < 0 \<longrightarrow>
        max_objects (Quadtree_new b (Some v) ml lv :: 'a Quadtree) = v
        \<and> max_levels (Quadtree_new b mo (Some v) lv :: 'a Quadtree) = v
        \<and> level (Quadtree_new b mo ml (Some v) :: 'a Quadtree) = v)"
  by (simp add: js_or_def split: option.splits)

theorem Quadtree_new_defaults_witness:
  "(- 3 :: int) < 0
   \<and> max_objects (Quadtree_new \<lparr>left = 0, right = 1, bottom = 0, top' = 1\<rparr>
         (Some (- 3)) None None :: unit Quadtree) = - 3
   \<and> max_levels (Quadtree_new \<lparr>left = 0, right = 1, bottom = 0, top' = 1\<rparr>
         None (Some (- 3)) None :: unit Quadtree) = - 3
   \<and> level (Quadtree_new \<lparr>left = 0, right = 1, bottom = 0, top' = 1\<rparr>
         None None (Some (- 3)) :: unit Quadtree) = - 3"
proof -
  have h: "(- 3 :: int) < 0" by simp
  from Quadtree_new_defaults
         [of "\<lparr>left = 0, right = 1, bottom = 0, top' = 1\<rparr>" None None None "- 3"] h
  show ?thesis by blast
qed

subsection \<open>C10: insert terminates, within max_levels - level nested calls\<close>

text \<open>
  Claim C10. \<open>insert\<close> terminates: on any tree whatsoever it returns (or throws)
  within a recursion of depth \<open>budget\<close>. A leaf splits only when its level is below
  \<open>max_levels\<close>. On every tree built by the constructor and \<open>insert\<close> the subnodes
  of a node have the level of the node plus one, and on every node of such a tree
  \<open>insert\<close> returns with a recursion of depth at most \<open>max_levels - level\<close> (no
  recursion when that is negative).
\<close>

theorem insert_terminates_within_levels:
  "(\<forall>(t :: 'a Quadtree) p g. budget t \<le> g \<longrightarrow> insert_qt g t p \<noteq> Inl OutOfFuel)
   \<and> (\<forall>t p g t'. nodes (t :: 'a Quadtree) = [] \<longrightarrow> insert_qt g t p = Inr t' \<longrightarrow> nodes t' \<noteq> [] \<longrightarrow>
       level t < max_levels t)
   \<and> (levels_left (Quadtree_new b mo ml lv :: 'a Quadtree) \<le> fuel \<longrightarrow>
        (\<exists>t. inserts fuel (Quadtree_new b mo ml lv :: 'a Quadtree) ps = Inr t
          \<and> (\<forall>n \<in> set (subtrees t).
                (\<forall>p. \<exists>n'. insert_qt (levels_left n) n p = Inr n')
                \<and> (\<forall>c \<in> set (nodes n). level c = level n + 1)
                \<and> (nodes n \<noteq> [] \<longrightarrow> level n < max_levels n))))"
proof (intro conjI allI impI)
  fix t :: "'a Quadtree" and p g
  assume "budget t \<le> g"
  with never_out_of_fuel(1) [of t g p] show "insert_qt g t p \<noteq> Inl OutOfFuel" by blast
next
  fix t :: "'a Quadtree" and p g t'
  assume leaf: "nodes t = []" and r: "insert_qt g t p = Inr t'" and ne: "nodes t' \<noteq> []"
  show "level t < max_levels t"
  proof (rule ccontr)
    assume "\<not> level t < max_levels t"
    with r leaf have "t' = set_objects t (objects t @ [p])" by (auto simp: insert_qt_leaf)
    with ne leaf show False by simp
  qed
next
  assume a: "levels_left (Quadtree_new b mo ml lv :: 'a Quadtree) \<le> fuel"
  from reachable_facts [OF a, of ps]
  obtain t where t: "inserts fuel (Quadtree_new b mo ml lv :: 'a Quadtree) ps = Inr t"
    "tree_inv t" by blast
  have "(\<forall>p. \<exists>n'. insert_qt (levels_left n) n p = Inr n')
                \<and> (\<forall>c \<in> set (nodes n). level c = level n + 1)
                \<and> (nodes n \<noteq> [] \<longrightarrow> level n < max_levels n)"
    if n: "n \<in> set (subtrees t)" for n
  proof -
    have inv: "tree_inv n" using subtrees_inv [OF t(2) n] .
    have "\<exists>n'. insert_qt (levels_left n) n p = Inr n'" for p
      using insert_inv(1) [of n "levels_left n" p] inv by blast
    moreover have "\<forall>c \<in> set (nodes n). level c = level n + 1"
      using child_level [OF inv] by blast
    moreover have "nodes n \<noteq> [] \<longrightarrow> level n < max_levels n"
      using inv by (simp add: tree_inv_sel [of n])
    ultimately show ?thesis by blast
  qed
  with t(1) show "\<exists>t. inserts fuel (Quadtree_new b mo ml lv :: 'a Quadtree) ps = Inr t
          \<and> (\<forall>n \<in> set (subtrees t).
                (\<forall>p. \<exists>n'. insert_qt (levels_left n) n p = Inr n')
                \<and> (\<forall>c \<in> set (nodes n). level c = level n + 1)
                \<and> (nodes n \<noteq> [] \<longrightarrow> level n < max_levels n))"
    by blast
qed

theorem insert_terminates_within_levels_witness:
  "nodes (set_objects scenario_root [\<lparr>lon = 10, lat = 10\<rparr>, \<lparr>lon = 20, lat = 20\<rparr>]) = []
   \<and> insert_qt 4 (set_objects scenario_root [\<lparr>lon = 10, lat = 10\<rparr>, \<lparr>lon = 20, lat = 20\<rparr>])
        \<lparr>lon = 30, lat = 30\<rparr> = Inr scenario_tree
   \<and> nodes scenario_tree \<noteq> []
   \<and> level (set_objects scenario_root [\<lparr>lon = 10, lat = 10\<rparr>, \<lparr>lon = 20, lat = 20\<rparr>])
       < max_levels (set_objects scenario_root [\<lparr>lon = 10, lat = 10\<rparr>, \<lparr>lon = 20, lat = 20\<rparr>])
   \<and> budget scenario_tree \<le> 4
   \<and> insert_qt 4 scenario_tree \<lparr>lon = 40, lat = 40\<rparr> \<noteq> Inl OutOfFuel
   \<and> levels_left scenario_root \<le> 4
   \<and> nodes scenario_tree ! 1 \<in> set (subtrees scenario_tree)
   \<and> levels_left (nodes scenario_tree ! 1) = 3
   \<and> (\<exists>n'. insert_qt 3 (nodes scenario_tree ! 1) \<lparr>lon = 40, lat = 40\<rparr> = Inr n')
   \<and> nodes (nodes scenario_tree ! 1) \<noteq> []
   \<and> level (nodes scenario_tree ! 1) < max_levels (nodes scenario_tree ! 1)"
proof -
  let ?t2 = "set_objects scenario_root [\<lparr>lon = 10, lat = 10\<rparr>, \<lparr>lon = 20, lat = 20\<rparr>]"
  let ?p = "\<lparr>lon = 30, lat = 30\<rparr>"
  have a: "nodes ?t2 = []" by (simp add: scenario_root_def)
  have b: "insert_qt 4 ?t2 ?p = Inr scenario_tree"
    by (simp add: scenario_root_def scenario_tree_def eval_simps)
  have c: "nodes scenario_tree \<noteq> []" by (simp add: scenario_tree_def)
  have h: "levels_left (Quadtree_new \<lparr>left = 0, right = 100, bottom = 0, top' = 100\<rparr>
             (Some 2) (Some 4) None :: unit Quadtree) \<le> 4"
    by (simp add: levels_left_def js_or_def)
  have d: "nodes scenario_tree ! 1 \<in> set (subtrees scenario_tree)"
    "nodes (nodes scenario_tree ! 1) \<noteq> []"
    "levels_left (nodes scenario_tree ! 1) = 3"
    by (simp_all add: scenario_tree_def levels_left_def)
  note inst = insert_terminates_within_levels
    [of "\<lparr>left = 0, right = 100, bottom = 0, top' = 100\<rparr>" "Some 2" "Some 4" None 4 scenario_points]
  have bt: "budget scenario_tree \<le> 4"
    by (simp add: scenario_tree_def budget.simps js_or_def)
  from conjunct1 [OF inst] bt
  have nf: "insert_qt 4 scenario_tree \<lparr>lon = 40, lat = 40\<rparr> \<noteq> Inl OutOfFuel" by blast
  from conjunct1 [OF conjunct2 [OF inst]] a b c have e: "level ?t2 < max_levels ?t2" by blast
  from conjunct2 [OF conjunct2 [OF inst]] h scenario_inserts
  have "\<forall>n \<in> set (subtrees scenario_tree).
                (\<forall>p. \<exists>n'. insert_qt (levels_left n) n p = Inr n')
                \<and> (\<forall>c \<in> set (nodes n). level c = level n + 1)
                \<and> (nodes n \<noteq> [] \<longrightarrow> level n < max_levels n)"
    by (simp add: scenario_root_def)
  with d(1) have "(\<forall>p. \<exists>n'. insert_qt (levels_left (nodes scenario_tree ! 1))
                     (nodes scenario_tree ! 1) p = Inr n')
     \<and> (nodes (nodes scenario_tree ! 1) \<noteq> [] \<longrightarrow>
          level (nodes scenario_tree ! 1) < max_levels (nodes scenario_tree ! 1))"
    by blast
  with a b c e d h bt nf show ?thesis by (simp add: scenario_root_def)
qed

end
